theory Spec2Isabelle
  imports Main "HOL-Library.Char_ord" "HOL-Library.List_Lexorder" "HOL-Library.Multiset"
    "HOL-Library.AList"
begin

section \<open>The platform: strings, the URL class and its search parameters\<close>

text \<open>
  The extension's normalizer (utils/url-normalizer.js) is written against the browser's
  \<^verbatim>\<open>URL\<close> and \<^verbatim>\<open>URLSearchParams\<close> classes. They are modelled here after the URL
  Standard (url.spec.whatwg.org), on strings of 8-bit characters read as UTF-8 bytes:

  \<^item> the parser removes leading and trailing C0 controls and spaces and every tab and
    newline, reads the scheme, and for \<^verbatim>\<open>http\<close> and \<^verbatim>\<open>https\<close> reads host, port,
    path, query and fragment, with the Standard's percent-encode sets, dot segments,
    backslashes and default ports; a URL is written without a base, so a string with no
    scheme does not parse;
  \<^item> a host is an ASCII domain: it is lower-cased and refused when it holds a forbidden
    domain code point. Credentials, IPv6 literals, percent-encoded or non-ASCII hosts and
    the rewriting of numeric hosts are outside the model (the first four are refused, a
    numeric host is kept as written);
  \<^item> of a URL with any other scheme only the scheme is modelled (its host is left
    empty): the worker reads nothing else of it;
  \<^item> parameter names and values are byte strings: percent-decoding is not followed by a
    UTF-8 decoding step, names are ordered bytewise and lower-cased in ASCII.

  Where a statement could lean on these simplifications, it is proved over any URL class
  instead (the last two sections).
\<close>

subsection \<open>Characters\<close>

definition lower_char :: "char \<Rightarrow> char" where
  "lower_char c = (if CHR ''A'' \<le> c \<and> c \<le> CHR ''Z'' then char_of (of_char c + (32::nat)) else c)"

definition toLowerCase :: "string \<Rightarrow> string" where
  "toLowerCase s = map lower_char s"

definition is_alpha :: "char \<Rightarrow> bool" where
  "is_alpha c = ((CHR ''a'' \<le> c \<and> c \<le> CHR ''z'') \<or> (CHR ''A'' \<le> c \<and> c \<le> CHR ''Z''))"

definition is_digit :: "char \<Rightarrow> bool" where
  "is_digit c = (CHR ''0'' \<le> c \<and> c \<le> CHR ''9'')"

definition is_alnum :: "char \<Rightarrow> bool" where
  "is_alnum c = (is_alpha c \<or> is_digit c)"

definition hex_digit :: "nat \<Rightarrow> char" where
  "hex_digit n = (if n < 10 then char_of (48 + n) else char_of (55 + n))"

definition hex_val :: "char \<Rightarrow> nat option" where
  "hex_val c =
     (if is_digit c then Some (of_char c - 48)
      else if CHR ''A'' \<le> c \<and> c \<le> CHR ''F'' then Some (of_char c - 55)
      else if CHR ''a'' \<le> c \<and> c \<le> CHR ''f'' then Some (of_char c - 87)
      else None)"

subsection \<open>Percent-encoding\<close>

definition percent_encode_byte :: "char \<Rightarrow> string" where
  "percent_encode_byte c =
     [CHR ''%'', hex_digit (of_char c div 16), hex_digit (of_char c mod 16)]"

definition percent_encode :: "(char \<Rightarrow> bool) \<Rightarrow> string \<Rightarrow> string" where
  "percent_encode in_set s = concat (map (\<lambda>c. if in_set c then percent_encode_byte c else [c]) s)"

fun percent_decode :: "string \<Rightarrow> string" where
  "percent_decode [] = []"
| "percent_decode (c # cs) =
     (if c = CHR ''%'' then
        (case cs of
           a # b # rest \<Rightarrow>
             (case (hex_val a, hex_val b) of
                (Some x, Some y) \<Rightarrow> char_of (16 * x + y) # percent_decode rest
              | _ \<Rightarrow> c # percent_decode cs)
         | _ \<Rightarrow> c # percent_decode cs)
      else c # percent_decode cs)"

definition c0_control_set :: "char \<Rightarrow> bool" where
  "c0_control_set c = (c \<le> CHR 0x1F \<or> CHR 0x7E < c)"

definition fragment_set :: "char \<Rightarrow> bool" where
  "fragment_set c = (c0_control_set c \<or> c \<in> {CHR 0x20, CHR 0x22, CHR ''<'', CHR ''>'', CHR 0x60})"

definition query_set :: "char \<Rightarrow> bool" where
  "query_set c = (c0_control_set c \<or> c \<in> {CHR 0x20, CHR 0x22, CHR ''#'', CHR ''<'', CHR ''>''})"

definition special_query_set :: "char \<Rightarrow> bool" where
  "special_query_set c = (query_set c \<or> c = CHR 0x27)"

definition path_set :: "char \<Rightarrow> bool" where
  "path_set c = (query_set c \<or> c \<in> {CHR ''?'', CHR 0x5E, CHR 0x60, CHR ''{'', CHR ''}''})"

definition urlencoded_set :: "char \<Rightarrow> bool" where
  "urlencoded_set c = (\<not> (is_alnum c \<or> c \<in> {CHR ''*'', CHR ''-'', CHR ''.'', CHR ''_''}))"

subsection \<open>application/x-www-form-urlencoded\<close>

fun split_on :: "(char \<Rightarrow> bool) \<Rightarrow> string \<Rightarrow> string list" where
  "split_on sep [] = [[]]"
| "split_on sep (c # cs) =
     (case split_on sep cs of
        [] \<Rightarrow> [[c]]
      | s # ss \<Rightarrow> if sep c then [] # s # ss else (c # s) # ss)"

definition plus_to_space :: "string \<Rightarrow> string" where
  "plus_to_space s = map (\<lambda>c. if c = CHR ''+'' then CHR 0x20 else c) s"

definition urlencoded_pair :: "string \<Rightarrow> string \<times> string" where
  "urlencoded_pair bytes =
     (let name = takeWhile (\<lambda>c. c \<noteq> CHR ''='') bytes;
          val = drop 1 (dropWhile (\<lambda>c. c \<noteq> CHR ''='') bytes)
      in (percent_decode (plus_to_space name), percent_decode (plus_to_space val)))"

definition urlencoded_parse :: "string \<Rightarrow> (string \<times> string) list" where
  "urlencoded_parse input =
     map urlencoded_pair (filter (\<lambda>bytes. bytes \<noteq> []) (split_on (\<lambda>c. c = CHR ''&'') input))"

definition urlencoded_byte :: "char \<Rightarrow> string" where
  "urlencoded_byte c =
     (if c = CHR 0x20 then ''+'' else if urlencoded_set c then percent_encode_byte c else [c])"

definition urlencoded_string :: "string \<Rightarrow> string" where
  "urlencoded_string s = concat (map urlencoded_byte s)"

fun join_with :: "char \<Rightarrow> string list \<Rightarrow> string" where
  "join_with sep [] = []"
| "join_with sep [s] = s"
| "join_with sep (s # t # ss) = s @ sep # join_with sep (t # ss)"

definition urlencoded_serialize :: "(string \<times> string) list \<Rightarrow> string" where
  "urlencoded_serialize tuples =
     join_with (CHR ''&'')
       (map (\<lambda>(name, val). urlencoded_string name @ CHR ''='' # urlencoded_string val) tuples)"

subsection \<open>The URL record and its parser\<close>

record URL =
  scheme :: string
  host :: string
  port :: "nat option"
  path :: "string list"
  query :: "string option"
  fragment :: "string option"
  searchParams :: "(string \<times> string) list"

datatype js_error = TypeError string | Error string

fun message :: "js_error \<Rightarrow> string" where
  "message (TypeError m) = m"
| "message (Error m) = m"

definition is_c0_or_space :: "char \<Rightarrow> bool" where
  "is_c0_or_space c = (c \<le> CHR 0x20)"

definition is_tab_or_newline :: "char \<Rightarrow> bool" where
  "is_tab_or_newline c = (c \<in> {CHR 0x09, CHR 0x0A, CHR 0x0D})"

definition preprocess :: "string \<Rightarrow> string" where
  "preprocess input =
     filter (\<lambda>c. \<not> is_tab_or_newline c)
       (rev (dropWhile is_c0_or_space (rev (dropWhile is_c0_or_space input))))"

definition is_scheme_char :: "char \<Rightarrow> bool" where
  "is_scheme_char c = (is_alnum c \<or> c \<in> {CHR ''+'', CHR ''-'', CHR ''.''})"

definition scheme_state :: "string \<Rightarrow> (string \<times> string) option" where
  "scheme_state s =
     (case s of
        [] \<Rightarrow> None
      | c # cs \<Rightarrow>
          if is_alpha c then
            (case dropWhile is_scheme_char s of
               d # rest \<Rightarrow>
                 if d = CHR '':'' then Some (toLowerCase (takeWhile is_scheme_char s), rest)
                 else None
             | [] \<Rightarrow> None)
          else None)"

definition is_slash :: "char \<Rightarrow> bool" where
  "is_slash c = (c = CHR ''/'' \<or> c = CHR 0x5C)"

definition authority_end :: "char \<Rightarrow> bool" where
  "authority_end c = (is_slash c \<or> c = CHR ''?'' \<or> c = CHR ''#'')"

definition forbidden_domain_code_point :: "char \<Rightarrow> bool" where
  "forbidden_domain_code_point c =
     (c \<le> CHR 0x20 \<or> CHR 0x7F \<le> c \<or>
      c \<in> {CHR ''#'', CHR ''/'', CHR '':'', CHR ''<'', CHR ''>'', CHR ''?'', CHR ''@'',
           CHR ''['', CHR 0x5C, CHR '']'', CHR 0x5E, CHR ''|'', CHR ''%''})"

definition host_parser :: "string \<Rightarrow> string option" where
  "host_parser input =
     (if input = [] \<or> (\<exists>c \<in> set input. forbidden_domain_code_point c) then None
      else Some (toLowerCase input))"

definition digit_val :: "char \<Rightarrow> nat" where
  "digit_val c = of_char c - 48"

definition decimal :: "string \<Rightarrow> nat" where
  "decimal ds = foldl (\<lambda>n c. 10 * n + digit_val c) 0 ds"

fun show_nat :: "nat \<Rightarrow> string" where
  "show_nat n = (if n < 10 then [char_of (48 + n)] else show_nat (n div 10) @ [char_of (48 + n mod 10)])"

declare show_nat.simps [simp del]

definition default_port :: "string \<Rightarrow> nat option" where
  "default_port sch =
     (if sch = ''http'' then Some 80 else if sch = ''https'' then Some 443 else None)"

definition port_state :: "string \<Rightarrow> string \<Rightarrow> nat option option" where
  "port_state sch buffer =
     (if \<exists>c \<in> set buffer. \<not> is_digit c then None
      else if buffer = [] then Some None
      else if decimal buffer > 65535 then None
      else if default_port sch = Some (decimal buffer) then Some None
      else Some (Some (decimal buffer)))"

definition authority_state :: "string \<Rightarrow> string \<Rightarrow> (string \<times> nat option) option" where
  "authority_state sch buffer =
     (let h = takeWhile (\<lambda>c. c \<noteq> CHR '':'') buffer;
          rest = dropWhile (\<lambda>c. c \<noteq> CHR '':'') buffer
      in case host_parser h of
           None \<Rightarrow> None
         | Some hst \<Rightarrow>
             (case port_state sch (drop 1 rest) of
                None \<Rightarrow> None
              | Some p \<Rightarrow> Some (hst, p)))"

definition single_dot :: "string \<Rightarrow> bool" where
  "single_dot s = (toLowerCase s \<in> {''.'', ''%2e''})"

definition double_dot :: "string \<Rightarrow> bool" where
  "double_dot s = (toLowerCase s \<in> {''..'', ''.%2e'', ''%2e.'', ''%2e%2e''})"

definition path_segment :: "string \<Rightarrow> string list \<Rightarrow> bool \<Rightarrow> string list" where
  \<comment> \<open>the path state at the end of a segment: the buffer holds the segment as encoded;
      \<open>slash\<close> tells that a slash ended it\<close>
  "path_segment buffer acc slash =
     (if double_dot buffer then (if slash then butlast acc else butlast acc @ [[]])
      else if single_dot buffer then (if slash then acc else acc @ [[]])
      else acc @ [buffer])"

fun path_state :: "string list \<Rightarrow> string list \<Rightarrow> string list" where
  "path_state [] acc = acc"
| "path_state [s] acc = path_segment (percent_encode path_set s) acc False"
| "path_state (s # t # ss) acc =
     path_state (t # ss) (path_segment (percent_encode path_set s) acc True)"

definition path_start :: "string \<Rightarrow> string list" where
  "path_start s =
     path_state (split_on is_slash (case s of [] \<Rightarrow> [] | c # cs \<Rightarrow> if is_slash c then cs else s)) []"

definition special_URL :: "string \<Rightarrow> string \<Rightarrow> URL option" where
  "special_URL sch remaining =
     (let r1 = dropWhile is_slash remaining;
          authority = takeWhile (\<lambda>c. \<not> authority_end c) r1;
          r2 = dropWhile (\<lambda>c. \<not> authority_end c) r1;
          pth = takeWhile (\<lambda>c. c \<noteq> CHR ''?'' \<and> c \<noteq> CHR ''#'') r2;
          r3 = dropWhile (\<lambda>c. c \<noteq> CHR ''?'' \<and> c \<noteq> CHR ''#'') r2;
          qry = (case r3 of
                   [] \<Rightarrow> None
                 | c # cs \<Rightarrow> if c = CHR ''?'' then Some (takeWhile (\<lambda>c. c \<noteq> CHR ''#'') cs) else None);
          frg = (case dropWhile (\<lambda>c. c \<noteq> CHR ''#'') r3 of [] \<Rightarrow> None | c # cs \<Rightarrow> Some cs)
      in case authority_state sch authority of
           None \<Rightarrow> None
         | Some (hst, prt) \<Rightarrow>
             Some \<lparr>scheme = sch, host = hst, port = prt, path = path_start pth,
                   query = map_option (percent_encode special_query_set) qry,
                   fragment = map_option (percent_encode fragment_set) frg,
                   searchParams = []\<rparr>)"

definition basic_URL_parser :: "string \<Rightarrow> URL option" where
  "basic_URL_parser input =
     (case scheme_state (preprocess input) of
        None \<Rightarrow> None
      | Some (sch, remaining) \<Rightarrow>
          if sch = ''http'' \<or> sch = ''https'' then special_URL sch remaining
          else Some \<lparr>scheme = sch, host = [], port = None, path = [], query = None,
                     fragment = None, searchParams = []\<rparr>)"

subsection \<open>The URL object\<close>

definition URL_new :: "string \<Rightarrow> js_error + URL" where
  \<comment> \<open>\<^verbatim>\<open>new URL(url)\<close>: throws a TypeError when the parser fails; the search parameters
      are read from the query once, here\<close>
  "URL_new url =
     (case basic_URL_parser url of
        None \<Rightarrow> Inl (TypeError ''Invalid URL'')
      | Some u \<Rightarrow>
          Inr (u\<lparr>searchParams := urlencoded_parse (case query u of None \<Rightarrow> [] | Some q \<Rightarrow> q)\<rparr>))"

definition URL_protocol :: "URL \<Rightarrow> string" where
  "URL_protocol u = scheme u @ '':''"

definition URL_hostname :: "URL \<Rightarrow> string" where
  "URL_hostname u = host u"

definition URL_hash :: "URL \<Rightarrow> string" where
  \<comment> \<open>the getter answers the empty string for a missing and for an empty fragment\<close>
  "URL_hash u =
     (case fragment u of
        None \<Rightarrow> []
      | Some f \<Rightarrow> if f = [] then [] else CHR ''#'' # f)"

definition URL_set_hash :: "string \<Rightarrow> URL \<Rightarrow> URL" where
  "URL_set_hash v u =
     (if v = [] then u\<lparr>fragment := None\<rparr>
      else u\<lparr>fragment :=
             Some (percent_encode fragment_set
                    (filter (\<lambda>c. \<not> is_tab_or_newline c)
                       (case v of [] \<Rightarrow> [] | c # cs \<Rightarrow> if c = CHR ''#'' then cs else v)))\<rparr>)"

definition update_steps :: "(string \<times> string) list \<Rightarrow> URL \<Rightarrow> URL" where
  \<comment> \<open>the update steps: the list is serialized into the query, an empty serialization
      leaves no query\<close>
  "update_steps tuples u =
     u\<lparr>searchParams := tuples,
       query := (if urlencoded_serialize tuples = [] then None
                 else Some (urlencoded_serialize tuples))\<rparr>"

definition searchParams_keys :: "URL \<Rightarrow> string list" where
  "searchParams_keys u = map fst (searchParams u)"

definition searchParams_delete :: "string \<Rightarrow> URL \<Rightarrow> URL" where
  "searchParams_delete name u =
     update_steps (filter (\<lambda>(k, v). k \<noteq> name) (searchParams u)) u"

definition searchParams_sort :: "URL \<Rightarrow> URL" where
  \<comment> \<open>a stable sort by name\<close>
  "searchParams_sort u = update_steps (sort_key fst (searchParams u)) u"

definition URL_toString :: "URL \<Rightarrow> string" where
  "URL_toString u =
     scheme u @ ''://'' @ host u
     @ (case port u of None \<Rightarrow> [] | Some p \<Rightarrow> CHR '':'' # show_nat p)
     @ concat (map (\<lambda>seg. CHR ''/'' # seg) (path u))
     @ (case query u of None \<Rightarrow> [] | Some q \<Rightarrow> CHR ''?'' # q)
     @ (case fragment u of None \<Rightarrow> [] | Some f \<Rightarrow> CHR ''#'' # f)"

section \<open>utils/url-normalizer.js\<close>

definition VALID_PROTOCOLS :: "string list" where
  "VALID_PROTOCOLS = [''http:'', ''https:'']"

definition normalized :: "URL \<Rightarrow> string list \<Rightarrow> URL" where
  \<comment> \<open>what \<^verbatim>\<open>normalizeUrl\<close> does to the URL object between the protocol check and
      \<^verbatim>\<open>toString\<close>\<close>
  "normalized urlObj ignoreParams =
     (let u1 = (if length ignoreParams > 0 then
                  (let ignoreSet = map toLowerCase ignoreParams;
                       keysToDelete = filter (\<lambda>key. toLowerCase key \<in> set ignoreSet)
                                        (searchParams_keys urlObj)
                   in foldl (\<lambda>u key. searchParams_delete key u) urlObj keysToDelete)
                else urlObj);
          u2 = searchParams_sort u1
      in if URL_hash u2 = ''#'' then URL_set_hash [] u2 else u2)"

definition normalizeUrl_body :: "string \<Rightarrow> string list \<Rightarrow> js_error + string" where
  \<comment> \<open>the \<^verbatim>\<open>try\<close> block\<close>
  "normalizeUrl_body url ignoreParams =
     (case URL_new url of
        Inl e \<Rightarrow> Inl e
      | Inr urlObj \<Rightarrow>
          if URL_protocol urlObj \<notin> set VALID_PROTOCOLS then Inr url
          else Inr (URL_toString (normalized urlObj ignoreParams)))"

definition normalizeUrl :: "string \<Rightarrow> string list \<Rightarrow> string" where
  "normalizeUrl url ignoreParams =
     (case normalizeUrl_body url ignoreParams of Inl e \<Rightarrow> url | Inr s \<Rightarrow> s)"

definition extractDomain :: "string \<Rightarrow> string option" where
  "extractDomain url = (case URL_new url of Inl e \<Rightarrow> None | Inr urlObj \<Rightarrow> Some (URL_hostname urlObj))"

definition isValidHttpUrl :: "string \<Rightarrow> bool" where
  "isValidHttpUrl url =
     (case URL_new url of Inl e \<Rightarrow> False | Inr urlObj \<Rightarrow> URL_protocol urlObj \<in> set VALID_PROTOCOLS)"

section \<open>The normalizer over any URL class\<close>






section \<open>background/service-worker.js\<close>

record stored_config =
  stored_enabled :: "bool option"
  stored_ignoreParams :: "string list option"
  stored_highlightTextColor :: "string option"

text \<open>
  \<^verbatim>\<open>chrome.history.search\<close> answers through its callback: with the list of history items
  (of which the worker reads the URL only), or, when the search failed, with no result
  at all. The third outcome is a call that raises instead of answering.
\<close>

datatype search_outcome = Results "string list" | NoResults | Raises js_error

text \<open>
  The browser as the worker sees it: the synchronised storage, the history store (what a
  search for a text answers) and the texts searched for so far.
\<close>

record chrome =
  storage_sync :: stored_config
  history_search :: "string \<Rightarrow> search_outcome"
  searched :: "string list"

definition queryHistoryByDomain :: "string \<Rightarrow> chrome \<Rightarrow> (js_error + string list) \<times> chrome" where
  \<comment> \<open>the promise as it settles: \<open>Inl\<close> rejected (the executor raised), \<open>Inr\<close> resolved\<close>
  "queryHistoryByDomain domain w =
     (case history_search w domain of
        Results urls \<Rightarrow> Inr urls
      | NoResults \<Rightarrow> Inr []
      | Raises e \<Rightarrow> Inl e,
      w\<lparr>searched := searched w @ [domain]\<rparr>)"

text \<open>
  A JavaScript \<^verbatim>\<open>Map\<close> from strings to arrays is an association list in insertion order:
  \<^const>\<open>AList.update\<close> is \<^verbatim>\<open>set\<close> (a known key keeps its place, a new one goes last). A
  \<^verbatim>\<open>Set\<close> of strings is a list without repetition, in insertion order.
\<close>

definition map_push :: "string \<Rightarrow> string \<Rightarrow> (string \<times> string list) list \<Rightarrow> (string \<times> string list) list" where
  \<comment> \<open>\<^verbatim>\<open>if (!m.has(k)) m.set(k, []); m.get(k).push(v)\<close>\<close>
  "map_push k v m =
     AList.map_entry k (\<lambda>vs. vs @ [v]) (if map_of m k = None then AList.update k [] m else m)"

definition set_add :: "string \<Rightarrow> string list \<Rightarrow> string list" where
  "set_add x xs = (if x \<in> set xs then xs else xs @ [x])"

definition group_step ::
  "string list \<Rightarrow> (string \<times> string list) list \<times> (string \<times> string list) list \<Rightarrow> string
    \<Rightarrow> (string \<times> string list) list \<times> (string \<times> string list) list" where
  \<comment> \<open>one round of the first loop, on the pair (domainGroups, urlToOriginals)\<close>
  "group_step ignoreParams maps url =
     (if \<not> isValidHttpUrl url then maps
      else
        (case extractDomain url of
           None \<Rightarrow> maps
         | Some domain \<Rightarrow>
             if domain = [] then maps
             else (map_push domain url (fst maps),
                   map_push (normalizeUrl url ignoreParams) url (snd maps))))"

definition group_urls ::
  "string list \<Rightarrow> string list \<Rightarrow> (string \<times> string list) list \<times> (string \<times> string list) list" where
  "group_urls urls ignoreParams = foldl (group_step ignoreParams) ([], []) urls"

definition domainGroups :: "string list \<Rightarrow> string list \<Rightarrow> (string \<times> string list) list" where
  "domainGroups urls ignoreParams = fst (group_urls urls ignoreParams)"

fun domainQueries :: "string list \<Rightarrow> chrome \<Rightarrow> (js_error + string list) list \<times> chrome" where
  \<comment> \<open>the second loop starts one search per domain, in the order of the map\<close>
  "domainQueries [] w = ([], w)"
| "domainQueries (domain # ds) w =
     (let (p, w1) = queryHistoryByDomain domain w;
          (ps, w2) = domainQueries ds w1
      in (p # ps, w2))"

definition then_callback :: "string list \<Rightarrow> string list \<Rightarrow> string list \<Rightarrow> string list \<Rightarrow> string list" where
  \<comment> \<open>the function given to \<^verbatim>\<open>then\<close>, on the set visitedOriginalUrls\<close>
  "then_callback ignoreParams domainUrls historyUrls visitedOriginalUrls =
     (let normalizedHistory =
            foldl (\<lambda>st hUrl. set_add (normalizeUrl hUrl ignoreParams) st) [] historyUrls
      in foldl (\<lambda>visited pageUrl.
                  if normalizeUrl pageUrl ignoreParams \<in> set normalizedHistory
                  then set_add pageUrl visited else visited)
           visitedOriginalUrls domainUrls)"

fun Promise_all :: "(js_error + 'a) list \<Rightarrow> js_error + 'a list" where
  "Promise_all [] = Inr []"
| "Promise_all (Inl e # ps) = Inl e"
| "Promise_all (Inr x # ps) = (case Promise_all ps of Inl e \<Rightarrow> Inl e | Inr xs \<Rightarrow> Inr (x # xs))"

text \<open>
  The searches are started together and answer in an order the worker does not control.
  The answers are taken here in the order of the domains; another order gives the same
  set of visited URLs in another enumeration. A search that raised rejects its promise,
  \<^verbatim>\<open>Promise.all\<close> then rejects with the first such error, and \<^verbatim>\<open>await\<close> raises it.
\<close>

definition checkVisitedUrls :: "string list \<Rightarrow> string list \<Rightarrow> chrome \<Rightarrow> (js_error + string list) \<times> chrome" where
  "checkVisitedUrls urls ignoreParams w =
     (let groups = domainGroups urls ignoreParams;
          (settled, w1) = domainQueries (map fst groups) w;
          visitedOriginalUrls =
            foldl (\<lambda>visited ((domain, domainUrls), p).
                     case p of
                       Inl e \<Rightarrow> visited
                     | Inr historyUrls \<Rightarrow> then_callback ignoreParams domainUrls historyUrls visited)
              [] (zip groups settled)
      in (case Promise_all settled of
            Inl e \<Rightarrow> Inl e
          | Inr done \<Rightarrow> Inr visitedOriginalUrls,
          w1))"

record config =
  enabled :: bool
  ignoreParams :: "string list"
  highlightTextColor :: string

definition DEFAULT_CONFIG :: config where
  "DEFAULT_CONFIG = \<lparr>enabled = True, ignoreParams = [], highlightTextColor = ''#C58AF9''\<rparr>"

definition getConfig :: "chrome \<Rightarrow> config" where
  \<comment> \<open>\<^verbatim>\<open>chrome.storage.sync.get(DEFAULT_CONFIG, ...)\<close>: a key that is not stored has its default\<close>
  "getConfig w =
     \<lparr>enabled = (case stored_enabled (storage_sync w) of None \<Rightarrow> enabled DEFAULT_CONFIG | Some b \<Rightarrow> b),
      ignoreParams = (case stored_ignoreParams (storage_sync w) of
                        None \<Rightarrow> ignoreParams DEFAULT_CONFIG | Some ps \<Rightarrow> ps),
      highlightTextColor = (case stored_highlightTextColor (storage_sync w) of
                              None \<Rightarrow> highlightTextColor DEFAULT_CONFIG | Some c \<Rightarrow> c)\<rparr>"

record check_message =
  urls :: "string list option"

record response =
  visitedUrls :: "string list"
  config :: config
  error :: "string option"

definition handleCheckVisited :: "check_message \<Rightarrow> chrome \<Rightarrow> response \<times> chrome" where
  \<comment> \<open>\<^verbatim>\<open>message.urls || []\<close> is the case on \<open>urls msg\<close>; the configuration always has its
      list of ignored parameters; the last case is the \<^verbatim>\<open>catch\<close>\<close>
  "handleCheckVisited msg w =
     (let cfg = getConfig w in
      if \<not> enabled cfg then (\<lparr>visitedUrls = [], config = cfg, error = None\<rparr>, w)
      else
        (case checkVisitedUrls (case urls msg of None \<Rightarrow> [] | Some us \<Rightarrow> us) (ignoreParams cfg) w of
           (Inr visited, w1) \<Rightarrow> (\<lparr>visitedUrls = visited, config = cfg, error = None\<rparr>, w1)
         | (Inl e, w1) \<Rightarrow>
             (\<lparr>visitedUrls = [], config = DEFAULT_CONFIG, error = Some (message e)\<rparr>, w1)))"

section \<open>Auxiliary notions for the statements\<close>

text \<open>
  None of the following is code of the extension: the notions name what the lemmas speak
  about (the candidates of a domain, one round of the loop over the settled searches,
  URL records as the parser produces them, the parts of a serialized URL), and the sample
  browsers and candidates are the inputs at which the theorems are instantiated.
\<close>

definition in_group :: "string \<Rightarrow> string \<Rightarrow> bool" where
  "in_group d u = (isValidHttpUrl u \<and> extractDomain u = Some d \<and> d \<noteq> [])"

definition settle_step :: "string list \<Rightarrow> chrome \<Rightarrow> string list \<Rightarrow> string \<times> string list \<Rightarrow> string list" where
  "settle_step ps w vis dg =
     (case fst (queryHistoryByDomain (fst dg) w) of
        Inl e \<Rightarrow> vis
      | Inr hs \<Rightarrow> then_callback ps (snd dg) hs vis)"

definition quiet_world :: chrome where
  "quiet_world =
     \<lparr>storage_sync = \<lparr>stored_enabled = Some False, stored_ignoreParams = None,
                       stored_highlightTextColor = None\<rparr>,
      history_search = (\<lambda>d. Results [''https://x.com/a'']),
      searched = []\<rparr>"

definition sample_world :: "search_outcome \<Rightarrow> chrome" where
  "sample_world y =
     \<lparr>storage_sync = \<lparr>stored_enabled = None, stored_ignoreParams = Some [''utm_source''],
                       stored_highlightTextColor = None\<rparr>,
      history_search = (\<lambda>d. if d = ''x.com'' then Results [''https://x.com/a'', ''https://x.com/b?a=1&b=2'']
                             else if d = ''y.com'' then y else NoResults),
      searched = []\<rparr>"

definition sample_urls :: "string list" where
  "sample_urls = [''https://x.com/a?utm_source=x'', ''https://y.com/c'', ''https://x.com/a'',
                  ''javascript:void(0)'', ''https://x.com/a'', ''https://x.com/b?b=2&a=1'']"

definition ignored :: "string list \<Rightarrow> string \<Rightarrow> bool" where
  "ignored ps name = (toLowerCase name \<in> set (map toLowerCase ps))"

definition same_but_query :: "URL \<Rightarrow> URL \<Rightarrow> bool" where
  "same_but_query u v =
     (scheme u = scheme v \<and> host u = host v \<and> port u = port v \<and> path u = path v
      \<and> fragment u = fragment v)"

definition unreserved :: "char \<Rightarrow> bool" where
  "unreserved c = (is_alnum c \<or> c \<in> {CHR ''%'', CHR ''*'', CHR ''-'', CHR ''.'', CHR ''_'', CHR ''+'', CHR ''='', CHR ''&''})"

definition segment_ok :: "string \<Rightarrow> bool" where
  "segment_ok s = (\<not> single_dot s \<and> \<not> double_dot s \<and> (\<forall>c \<in> set s. \<not> path_set c \<and> \<not> is_slash c))"

definition wf_URL :: "URL \<Rightarrow> bool" where
  "wf_URL u =
     ((scheme u = ''http'' \<or> scheme u = ''https'')
      \<and> host u \<noteq> [] \<and> (\<forall>c \<in> set (host u). \<not> forbidden_domain_code_point c)
      \<and> toLowerCase (host u) = host u
      \<and> (case port u of None \<Rightarrow> True | Some n \<Rightarrow> n \<le> 65535 \<and> default_port (scheme u) \<noteq> Some n)
      \<and> path u \<noteq> [] \<and> (\<forall>s \<in> set (path u). segment_ok s)
      \<and> (case query u of None \<Rightarrow> True | Some q \<Rightarrow> \<forall>c \<in> set q. \<not> special_query_set c)
      \<and> (case fragment u of None \<Rightarrow> True | Some f \<Rightarrow> \<forall>c \<in> set f. \<not> fragment_set c))"

definition port_text :: "nat option \<Rightarrow> string" where
  "port_text p = (case p of None \<Rightarrow> [] | Some n \<Rightarrow> CHR '':'' # show_nat n)"

definition path_text :: "string list \<Rightarrow> string" where
  "path_text segs = concat (map (\<lambda>seg. CHR ''/'' # seg) segs)"

definition query_text :: "string option \<Rightarrow> string" where
  "query_text q = (case q of None \<Rightarrow> [] | Some t \<Rightarrow> CHR ''?'' # t)"

definition fragment_text :: "string option \<Rightarrow> string" where
  "fragment_text f = (case f of None \<Rightarrow> [] | Some t \<Rightarrow> CHR ''#'' # t)"

section \<open>Basic facts\<close>

lemma valid_protocol_iff:
  "URL_protocol u \<in> set VALID_PROTOCOLS \<longleftrightarrow> scheme u = ''http'' \<or> scheme u = ''https''"
  by (auto simp: URL_protocol_def VALID_PROTOCOLS_def)

lemma URL_hash_never_bare: "URL_hash u \<noteq> ''#''"
  by (simp add: URL_hash_def split: option.splits)

lemma normalized_unfold:
  "normalized u ps =
     searchParams_sort
       (if 0 < length ps
        then foldl (\<lambda>u key. searchParams_delete key u) u
               (filter (\<lambda>key. toLowerCase key \<in> set (map toLowerCase ps)) (searchParams_keys u))
        else u)"
  by (simp add: normalized_def Let_def URL_hash_never_bare)

section \<open>The normalizer on strings that are not http(s) URLs\<close>

text \<open>
  C7. A string that does not parse, or that parses with a protocol other than
  \<^verbatim>\<open>http:\<close> and \<^verbatim>\<open>https:\<close>, is returned by \<^const>\<open>normalizeUrl\<close> as it is: the exception
  of the constructor is caught, so the function answers for every input. And
  \<^const>\<open>isValidHttpUrl\<close> holds exactly of the strings that parse with one of the two
  protocols.
\<close>

theorem normalizeUrl_passthrough:
  "(\<forall>e. URL_new url = Inl e \<longrightarrow> normalizeUrl url ps = url)
   \<and> (\<forall>u. URL_new url = Inr u \<and> URL_protocol u \<noteq> ''http:'' \<and> URL_protocol u \<noteq> ''https:''
          \<longrightarrow> normalizeUrl url ps = url)
   \<and> (isValidHttpUrl url \<longleftrightarrow>
        (\<exists>u. URL_new url = Inr u \<and> (URL_protocol u = ''http:'' \<or> URL_protocol u = ''https:'')))"
  by (auto simp: normalizeUrl_def normalizeUrl_body_def isValidHttpUrl_def VALID_PROTOCOLS_def
           split: sum.splits)

theorem normalizeUrl_passthrough_witness:
  "URL_new ''not a url'' = Inl (TypeError ''Invalid URL'')
   \<and> normalizeUrl ''not a url'' [''utm_source''] = ''not a url''
   \<and> URL_protocol \<lparr>scheme = ''javascript'', host = [], port = None, path = [], query = None,
                    fragment = None, searchParams = []\<rparr> = ''javascript:''
   \<and> normalizeUrl ''javascript:void(0)'' [''utm_source''] = ''javascript:void(0)''
   \<and> \<not> isValidHttpUrl ''javascript:void(0)''
   \<and> isValidHttpUrl ''https://x.com/a''"
proof -
  have p1: "URL_new ''not a url'' = Inl (TypeError ''Invalid URL'')"
    by code_simp
  have p2: "URL_new ''javascript:void(0)'' =
              Inr \<lparr>scheme = ''javascript'', host = [], port = None, path = [], query = None,
                   fragment = None, searchParams = []\<rparr>"
    by code_simp
  have p3: "URL_protocol \<lparr>scheme = ''javascript'', host = [], port = None, path = [], query = None,
                    fragment = None, searchParams = []\<rparr> = ''javascript:''"
    by (simp add: URL_protocol_def)
  have p4: "URL_new ''https://x.com/a'' =
              Inr \<lparr>scheme = ''https'', host = ''x.com'', port = None, path = [''a''], query = None,
                   fragment = None, searchParams = []\<rparr>"
    by code_simp
  have p5: "URL_protocol \<lparr>scheme = ''https'', host = ''x.com'', port = None, path = [''a''],
                    query = None, fragment = None, searchParams = []\<rparr> = ''https:''"
    by (simp add: URL_protocol_def)
  note a = normalizeUrl_passthrough [of "''not a url''" "[''utm_source'']"]
  note b = normalizeUrl_passthrough [of "''javascript:void(0)''" "[''utm_source'']"]
  note c = normalizeUrl_passthrough [of "''https://x.com/a''" "[]"]
  from a p1 have "normalizeUrl ''not a url'' [''utm_source''] = ''not a url''"
    by blast
  moreover from b p2 p3 have "normalizeUrl ''javascript:void(0)'' [''utm_source''] = ''javascript:void(0)''"
    by simp
  moreover from b p2 p3 have "\<not> isValidHttpUrl ''javascript:void(0)''"
    by simp
  moreover from c p4 p5 have "isValidHttpUrl ''https://x.com/a''"
    by simp
  ultimately show ?thesis
    using p1 p3 by simp
qed

section \<open>The empty fragment\<close>

text \<open>
  C8 says that a URL ending in a bare \<^verbatim>\<open>#\<close> normalizes like the same URL without it.
  The worker tests \<^verbatim>\<open>urlObj.hash === '#'\<close>, but the getter never answers \<^verbatim>\<open>#\<close> alone
  (\<open>URL_hash_never_bare\<close>), so the fragment is never cleared and the serializer writes
  the empty fragment back (\<open>empty_fragment_survives\<close>): the two URLs keep different
  keys. A fragment that is not empty is kept, as the claim says.
\<close>

theorem empty_fragment_is_kept:
  "normalizeUrl ''https://x.com/a#'' [] = ''https://x.com/a#''
   \<and> normalizeUrl ''https://x.com/a'' [] = ''https://x.com/a''
   \<and> normalizeUrl ''https://x.com/a#top'' [] = ''https://x.com/a#top''"
  by code_simp

section \<open>The visited-URL check\<close>

lemma map_of_map_push:
  "map_of (map_push k v m) k' =
     (if k' = k then Some ((case map_of m k of None \<Rightarrow> [] | Some vs \<Rightarrow> vs) @ [v]) else map_of m k')"
  by (auto simp: map_push_def map_of_map_entry update_conv' split: option.splits)

lemma distinct_map_push: "distinct (map fst m) \<Longrightarrow> distinct (map fst (map_push k v m))"
  by (simp add: map_push_def distinct_map_entry distinct_update)

lemma fst_group_step:
  "fst (group_step ps maps u) =
     (case extractDomain u of
        None \<Rightarrow> fst maps
      | Some d \<Rightarrow> if in_group d u then map_push d u (fst maps) else fst maps)"
  by (auto simp: group_step_def in_group_def split: option.splits)

lemma domainGroups_snoc:
  "domainGroups (us @ [u]) ps =
     (case extractDomain u of
        None \<Rightarrow> domainGroups us ps
      | Some d \<Rightarrow> if in_group d u then map_push d u (domainGroups us ps) else domainGroups us ps)"
  unfolding domainGroups_def group_urls_def foldl_append foldl_Cons foldl_Nil
  by (rule fst_group_step)

lemma domainGroups_Nil: "domainGroups [] ps = []"
  by (simp add: domainGroups_def group_urls_def)

lemma in_group_unique: "in_group d u \<Longrightarrow> in_group d' u \<Longrightarrow> d = d'"
  by (simp add: in_group_def)

lemma map_of_domainGroups:
  "map_of (domainGroups us ps) d =
     (if filter (in_group d) us = [] then None else Some (filter (in_group d) us))"
proof (induction us rule: rev_induct)
  case Nil
  show ?case by (simp add: domainGroups_Nil)
next
  case (snoc u us)
  show ?case
  proof (cases "extractDomain u")
    case None
    then have "\<not> in_group d u" by (simp add: in_group_def)
    with None snoc show ?thesis by (simp add: domainGroups_snoc)
  next
    case (Some d')
    show ?thesis
    proof (cases "in_group d' u")
      case True
      then have "in_group d u \<longleftrightarrow> d = d'"
        using in_group_unique by blast
      with True Some snoc show ?thesis
        by (auto simp: domainGroups_snoc map_of_map_push)
    next
      case False
      with Some have "\<not> in_group d u" by (auto simp: in_group_def)
      with False Some snoc show ?thesis by (simp add: domainGroups_snoc)
    qed
  qed
qed

lemma distinct_domainGroups: "distinct (map fst (domainGroups us ps))"
proof (induction us rule: rev_induct)
  case Nil
  show ?case by (simp add: domainGroups_Nil)
next
  case (snoc u us)
  then show ?case
    by (simp add: domainGroups_snoc distinct_map_push split: option.splits)
qed

lemma domainGroups_member:
  "(d, g) \<in> set (domainGroups us ps) \<longleftrightarrow> g \<noteq> [] \<and> g = filter (in_group d) us"
proof -
  have "(d, g) \<in> set (domainGroups us ps) \<longleftrightarrow> map_of (domainGroups us ps) d = Some g"
    using distinct_domainGroups [of us ps] by simp
  also have "\<dots> \<longleftrightarrow> g \<noteq> [] \<and> g = filter (in_group d) us"
    unfolding map_of_domainGroups by auto
  finally show ?thesis .
qed

lemma host_parser_nonempty: "host_parser h = Some x \<Longrightarrow> x \<noteq> []"
  by (auto simp: host_parser_def toLowerCase_def split: if_splits)

lemma authority_state_nonempty: "authority_state sch b = Some (h, p) \<Longrightarrow> h \<noteq> []"
  by (auto simp: authority_state_def Let_def split: option.splits dest: host_parser_nonempty)

lemma special_URL_host: "special_URL sch r = Some u \<Longrightarrow> host u \<noteq> []"
  unfolding special_URL_def Let_def
  by (cases "authority_state sch (takeWhile (\<lambda>c. \<not> authority_end c) (dropWhile is_slash r))")
     (auto dest: authority_state_nonempty)

lemma http_host_nonempty:
  "basic_URL_parser s = Some u \<Longrightarrow> scheme u = ''http'' \<or> scheme u = ''https'' \<Longrightarrow> host u \<noteq> []"
  by (auto simp: basic_URL_parser_def split: option.splits if_splits dest: special_URL_host)

lemma URL_new_host:
  "URL_new s = Inr u \<Longrightarrow> scheme u = ''http'' \<or> scheme u = ''https'' \<Longrightarrow> host u \<noteq> []"
  by (auto simp: URL_new_def split: option.splits dest: http_host_nonempty)

lemma valid_in_group:
  "isValidHttpUrl u \<Longrightarrow> \<exists>d. in_group d u"
  by (auto simp: isValidHttpUrl_def in_group_def extractDomain_def valid_protocol_iff URL_hostname_def
      split: sum.splits dest: URL_new_host)

lemma queryHistoryByDomain_searched [simp]:
  "fst (queryHistoryByDomain d (w\<lparr>searched := x\<rparr>)) = fst (queryHistoryByDomain d w)"
  "snd (queryHistoryByDomain d w) = w\<lparr>searched := searched w @ [d]\<rparr>"
  by (simp_all add: queryHistoryByDomain_def)

lemma domainQueries_eq:
  "domainQueries ds w =
     (map (\<lambda>d. fst (queryHistoryByDomain d w)) ds, w\<lparr>searched := searched w @ ds\<rparr>)"
proof (induction ds arbitrary: w)
  case Nil
  show ?case by simp
next
  case (Cons d ds)
  show ?case
    by (simp add: Cons.IH split_beta Let_def)
qed

lemma set_set_add [simp]: "set (set_add x xs) = insert x (set xs)"
  by (auto simp: set_add_def)

lemma distinct_set_add [simp]: "distinct (set_add x xs) = distinct xs"
  by (auto simp: set_add_def)

lemma set_normalizedHistory:
  "set (foldl (\<lambda>st h. set_add (f h) st) acc hs) = set acc \<union> f ` set hs"
  by (induction hs arbitrary: acc) auto

lemma set_page_loop:
  "set (foldl (\<lambda>visited u. if P u then set_add u visited else visited) vis g)
     = set vis \<union> {u \<in> set g. P u}"
  by (induction g arbitrary: vis) auto

lemma distinct_page_loop:
  "distinct vis \<Longrightarrow> distinct (foldl (\<lambda>visited u. if P u then set_add u visited else visited) vis g)"
  by (induction g arbitrary: vis) auto

lemma set_then_callback:
  "set (then_callback ps g hs vis) =
     set vis \<union> {u \<in> set g. \<exists>h \<in> set hs. normalizeUrl h ps = normalizeUrl u ps}"
  unfolding then_callback_def Let_def set_page_loop set_normalizedHistory
  by (auto simp: image_iff) metis+

lemma distinct_then_callback:
  "distinct vis \<Longrightarrow> distinct (then_callback ps g hs vis)"
  unfolding then_callback_def Let_def by (rule distinct_page_loop)

lemma set_settle_loop:
  "set (foldl (settle_step ps w) vis gs) =
     set vis \<union> {u. \<exists>d g hs h. (d, g) \<in> set gs \<and> u \<in> set g
                     \<and> fst (queryHistoryByDomain d w) = Inr hs \<and> h \<in> set hs
                     \<and> normalizeUrl h ps = normalizeUrl u ps}"
proof (induction gs arbitrary: vis)
  case Nil
  show ?case by simp
next
  case (Cons x gs)
  obtain d g where x: "x = (d, g)" by (cases x)
  show ?case
  proof (cases "fst (queryHistoryByDomain d w)")
    case (Inl e)
    then show ?thesis
      unfolding foldl_Cons Cons.IH x by (auto simp: settle_step_def)
  next
    case (Inr hs)
    then show ?thesis
      unfolding foldl_Cons Cons.IH x by (auto simp: settle_step_def set_then_callback)
  qed
qed

lemma distinct_settle_loop:
  "distinct vis \<Longrightarrow> distinct (foldl (settle_step ps w) vis gs)"
  by (induction gs arbitrary: vis)
     (auto simp: settle_step_def distinct_then_callback split: sum.splits)

lemma checkVisitedUrls_unfold:
  "checkVisitedUrls us ps w =
     (case Promise_all (map (\<lambda>d. fst (queryHistoryByDomain d w)) (map fst (domainGroups us ps))) of
        Inl e \<Rightarrow> Inl e
      | Inr done \<Rightarrow> Inr (foldl (settle_step ps w) [] (domainGroups us ps)),
      w\<lparr>searched := searched w @ map fst (domainGroups us ps)\<rparr>)"
proof -
  have f: "foldl (\<lambda>visited ((domain, domainUrls), p).
                     case p of Inl e \<Rightarrow> visited
                     | Inr historyUrls \<Rightarrow> then_callback ps domainUrls historyUrls visited)
             vis (zip gs (map (\<lambda>d. fst (queryHistoryByDomain d w)) (map fst gs)))
           = foldl (settle_step ps w) vis gs" for vis gs
    by (induction gs arbitrary: vis) (auto simp: settle_step_def split: sum.splits)
  show ?thesis
    unfolding checkVisitedUrls_def Let_def domainQueries_eq prod.case f ..
qed

lemma Promise_all_Inr:
  "(\<exists>xs. Promise_all ps = Inr xs) \<longleftrightarrow> (\<forall>p \<in> set ps. \<forall>e. p \<noteq> Inl e)"
proof (induction ps)
  case Nil
  show ?case by simp
next
  case (Cons p ps)
  then show ?case
    by (cases p) (auto split: sum.splits)
qed

lemma candidate_in_groups:
  "(\<exists>g. (d, g) \<in> set (domainGroups us ps) \<and> u \<in> set g)
     \<longleftrightarrow> u \<in> set us \<and> isValidHttpUrl u \<and> extractDomain u = Some d"
proof -
  have "isValidHttpUrl u \<and> extractDomain u = Some d \<longleftrightarrow> in_group d u"
    using valid_in_group [of u] by (auto simp: in_group_def)
  then show ?thesis
    unfolding domainGroups_member by (auto simp: filter_empty_conv)
qed

lemma checkVisitedUrls_set:
  assumes "fst (checkVisitedUrls us ps w) = Inr vs"
  shows "set vs = {u \<in> set us. isValidHttpUrl u \<and>
                     (\<exists>d hs h. extractDomain u = Some d \<and> fst (queryHistoryByDomain d w) = Inr hs
                        \<and> h \<in> set hs \<and> normalizeUrl h ps = normalizeUrl u ps)}"
    and "distinct vs"
proof -
  from assms have vs: "vs = foldl (settle_step ps w) [] (domainGroups us ps)"
    by (auto simp: checkVisitedUrls_unfold split: sum.splits)
  show "distinct vs"
    unfolding vs by (rule distinct_settle_loop) simp
  have "set vs = {u. \<exists>d g hs h. (d, g) \<in> set (domainGroups us ps) \<and> u \<in> set g
                     \<and> fst (queryHistoryByDomain d w) = Inr hs \<and> h \<in> set hs
                     \<and> normalizeUrl h ps = normalizeUrl u ps}"
    unfolding vs set_settle_loop by simp
  also have "\<dots> = {u. \<exists>d hs h. (\<exists>g. (d, g) \<in> set (domainGroups us ps) \<and> u \<in> set g)
                     \<and> fst (queryHistoryByDomain d w) = Inr hs \<and> h \<in> set hs
                     \<and> normalizeUrl h ps = normalizeUrl u ps}"
    by blast
  also have "\<dots> = {u \<in> set us. isValidHttpUrl u \<and>
                     (\<exists>d hs h. extractDomain u = Some d \<and> fst (queryHistoryByDomain d w) = Inr hs
                        \<and> h \<in> set hs \<and> normalizeUrl h ps = normalizeUrl u ps)}"
    unfolding candidate_in_groups by blast
  finally show "set vs = {u \<in> set us. isValidHttpUrl u \<and>
                     (\<exists>d hs h. extractDomain u = Some d \<and> fst (queryHistoryByDomain d w) = Inr hs
                        \<and> h \<in> set hs \<and> normalizeUrl h ps = normalizeUrl u ps)}" .
qed

lemma checkVisitedUrls_resolves:
  "(\<exists>vs. fst (checkVisitedUrls us ps w) = Inr vs)
     \<longleftrightarrow> (\<forall>d \<in> fst ` set (domainGroups us ps). \<forall>e. history_search w d \<noteq> Raises e)"
proof -
  have q: "(\<forall>e. fst (queryHistoryByDomain d w) \<noteq> Inl e) \<longleftrightarrow> (\<forall>e. history_search w d \<noteq> Raises e)" for d
    by (auto simp: queryHistoryByDomain_def split: search_outcome.splits)
  have "(\<exists>vs. fst (checkVisitedUrls us ps w) = Inr vs) \<longleftrightarrow>
        (\<exists>xs. Promise_all (map (\<lambda>d. fst (queryHistoryByDomain d w)) (map fst (domainGroups us ps))) = Inr xs)"
    by (auto simp: checkVisitedUrls_unfold split: sum.splits)
  also have "\<dots> \<longleftrightarrow> (\<forall>d \<in> fst ` set (domainGroups us ps). \<forall>e. fst (queryHistoryByDomain d w) \<noteq> Inl e)"
    unfolding Promise_all_Inr by auto
  finally show ?thesis
    unfolding q .
qed

lemma checkVisitedUrls_world:
  "snd (checkVisitedUrls us ps w) = w\<lparr>searched := searched w @ map fst (domainGroups us ps)\<rparr>"
  by (simp add: checkVisitedUrls_unfold)

lemma group_domain_of_candidate:
  assumes "d \<in> fst ` set (domainGroups us ps)"
  shows "\<exists>u \<in> set us. extractDomain u = Some d"
proof -
  from assms obtain g where "(d, g) \<in> set (domainGroups us ps)" by auto
  then have "filter (in_group d) us \<noteq> []"
    unfolding domainGroups_member by blast
  then obtain u where "u \<in> set us" "in_group d u"
    by (auto simp: filter_empty_conv)
  then show ?thesis by (auto simp: in_group_def)
qed

lemma handleCheckVisited_enabled:
  assumes "enabled (getConfig w)"
  shows "handleCheckVisited msg w =
           (case checkVisitedUrls (case urls msg of None \<Rightarrow> [] | Some us \<Rightarrow> us) (ignoreParams (getConfig w)) w of
              (Inr visited, w1) \<Rightarrow> (\<lparr>visitedUrls = visited, config = getConfig w, error = None\<rparr>, w1)
            | (Inl e, w1) \<Rightarrow> (\<lparr>visitedUrls = [], config = DEFAULT_CONFIG, error = Some (message e)\<rparr>, w1))"
  using assms by (simp add: handleCheckVisited_def Let_def)

lemma handleCheckVisited_searched:
  assumes "enabled (getConfig w)"
  shows "searched (snd (handleCheckVisited msg w)) =
           searched w @ map fst (domainGroups (case urls msg of None \<Rightarrow> [] | Some us \<Rightarrow> us)
                                   (ignoreParams (getConfig w)))"
  unfolding handleCheckVisited_enabled [OF assms] checkVisitedUrls_unfold
  by (simp split: sum.splits)

text \<open>
  C3. When the stored configuration has \<^verbatim>\<open>enabled\<close> false, the handler of
  \<^verbatim>\<open>checkVisited\<close> answers with an empty list of visited URLs, whatever candidates the
  message carries, and leaves the browser as it was: in particular no history search is
  started (\<open>handleCheckVisited_searched\<close> shows that an enabled handler does record one
  search per domain).
\<close>

theorem disabled_skips_history:
  assumes "\<not> enabled (getConfig w)"
  shows "visitedUrls (fst (handleCheckVisited msg w)) = []
         \<and> snd (handleCheckVisited msg w) = w
         \<and> searched (snd (handleCheckVisited msg w)) = searched w"
  using assms by (simp add: handleCheckVisited_def Let_def)

theorem disabled_skips_history_witness:
  "\<not> enabled (getConfig quiet_world)
   \<and> visitedUrls (fst (handleCheckVisited \<lparr>urls = Some [''https://x.com/a'']\<rparr> quiet_world)) = []
   \<and> searched (snd (handleCheckVisited \<lparr>urls = Some [''https://x.com/a'']\<rparr> quiet_world)) = []"
proof -
  have off: "\<not> enabled (getConfig quiet_world)"
    by (simp add: getConfig_def quiet_world_def)
  have "searched quiet_world = []"
    by (simp add: quiet_world_def)
  with disabled_skips_history [OF off, of "\<lparr>urls = Some [''https://x.com/a'']\<rparr>"] off
  show ?thesis by simp
qed

text \<open>
  C10. Whatever the candidates, the ignored parameters and the answers of the history
  store, a list of visited URLs returned by \<^const>\<open>checkVisitedUrls\<close> holds only URLs of
  the input list and holds none of them twice; the same is true of the list the handler
  answers with (which is empty when the check was rejected).
\<close>

theorem visited_within_input:
  "(\<forall>vs. fst (checkVisitedUrls us ps w) = Inr vs \<longrightarrow> set vs \<subseteq> set us \<and> distinct vs)
   \<and> set (visitedUrls (fst (handleCheckVisited msg w))) \<subseteq> set (case urls msg of None \<Rightarrow> [] | Some l \<Rightarrow> l)
   \<and> distinct (visitedUrls (fst (handleCheckVisited msg w)))"
proof -
  have a: "set vs \<subseteq> set l \<and> distinct vs" if "fst (checkVisitedUrls l qs w) = Inr vs" for vs l qs
    using checkVisitedUrls_set [OF that] by auto
  have b: "set (visitedUrls (fst (handleCheckVisited msg w))) \<subseteq> set (case urls msg of None \<Rightarrow> [] | Some l \<Rightarrow> l)
           \<and> distinct (visitedUrls (fst (handleCheckVisited msg w)))"
  proof (cases "enabled (getConfig w)")
    case False
    then show ?thesis by (simp add: handleCheckVisited_def Let_def)
  next
    case True
    show ?thesis
    proof (cases "fst (checkVisitedUrls (case urls msg of None \<Rightarrow> [] | Some l \<Rightarrow> l) (ignoreParams (getConfig w)) w)")
      case (Inl e)
      then show ?thesis
        unfolding handleCheckVisited_enabled [OF True] by (simp add: split_beta)
    next
      case (Inr vs)
      with a [OF Inr] show ?thesis
        unfolding handleCheckVisited_enabled [OF True] by (simp add: split_beta)
    qed
  qed
  from a b show ?thesis by blast
qed

theorem visited_within_input_witness:
  "fst (checkVisitedUrls sample_urls [''utm_source''] (sample_world NoResults))
     = Inr [''https://x.com/a?utm_source=x'', ''https://x.com/a'', ''https://x.com/b?b=2&a=1'']
   \<and> set [''https://x.com/a?utm_source=x'', ''https://x.com/a'', ''https://x.com/b?b=2&a=1''] \<subseteq> set sample_urls
   \<and> distinct [''https://x.com/a?utm_source=x'', ''https://x.com/a'', ''https://x.com/b?b=2&a=1'']"
proof -
  have r: "fst (checkVisitedUrls sample_urls [''utm_source''] (sample_world NoResults))
     = Inr [''https://x.com/a?utm_source=x'', ''https://x.com/a'', ''https://x.com/b?b=2&a=1'']"
    by code_simp
  from visited_within_input [of sample_urls "[''utm_source'']" "sample_world NoResults"] r
  show ?thesis by blast
qed

lemma queryHistoryByDomain_fst:
  "fst (queryHistoryByDomain d w) =
     (case history_search w d of Results l \<Rightarrow> Inr l | NoResults \<Rightarrow> Inr [] | Raises e \<Rightarrow> Inl e)"
  by (simp add: queryHistoryByDomain_def)

lemma no_raise_resolves:
  assumes "\<forall>u \<in> set us. \<forall>d. extractDomain u = Some d \<longrightarrow> (\<forall>e. history_search w d \<noteq> Raises e)"
  shows "\<exists>vs. fst (checkVisitedUrls us ps w) = Inr vs"
  unfolding checkVisitedUrls_resolves
proof (intro ballI allI)
  fix d e
  assume "d \<in> fst ` set (domainGroups us ps)"
  then obtain u where "u \<in> set us" "extractDomain u = Some d"
    using group_domain_of_candidate by blast
  with assms show "history_search w d \<noteq> Raises e" by blast
qed

lemma valid_no_raise_resolves:
  assumes "\<forall>u \<in> set us. isValidHttpUrl u \<longrightarrow>
             (\<forall>d. extractDomain u = Some d \<longrightarrow> (\<forall>e. history_search w d \<noteq> Raises e))"
  shows "\<exists>vs. fst (checkVisitedUrls us ps w) = Inr vs"
  unfolding checkVisitedUrls_resolves
proof (intro ballI allI)
  fix d e
  assume "d \<in> fst ` set (domainGroups us ps)"
  then obtain g where "(d, g) \<in> set (domainGroups us ps)" by auto
  then have "filter (in_group d) us \<noteq> []"
    unfolding domainGroups_member by blast
  then obtain u where "u \<in> set us" "in_group d u"
    by (auto simp: filter_empty_conv)
  then have "u \<in> set us" "isValidHttpUrl u" "extractDomain u = Some d"
    by (simp_all add: in_group_def)
  with assms show "history_search w d \<noteq> Raises e" by blast
qed

text \<open>
  C1 says, of every list of candidates and every history store, that a candidate is
  reported exactly when it is a valid http(s) URL with a match in the history of its
  domain. When the search for one domain raises, \<^const>\<open>checkVisitedUrls\<close> is rejected
  and reports nothing, although the candidate \<^verbatim>\<open>https://x.com/a\<close> is valid and the
  query for its domain returned that very URL.
\<close>

theorem raised_search_reports_nothing:
  "fst (checkVisitedUrls sample_urls [''utm_source''] (sample_world (Raises (Error ''history unavailable''))))
     = Inl (Error ''history unavailable'')
   \<and> ''https://x.com/a'' \<in> set sample_urls
   \<and> isValidHttpUrl ''https://x.com/a''
   \<and> extractDomain ''https://x.com/a'' = Some ''x.com''
   \<and> fst (queryHistoryByDomain ''x.com'' (sample_world (Raises (Error ''history unavailable''))))
     = Inr [''https://x.com/a'', ''https://x.com/b?a=1&b=2'']
   \<and> ''https://x.com/a'' \<in> set [''https://x.com/a'', ''https://x.com/b?a=1&b=2'']"
  by code_simp

text \<open>
  C1, amended. When no search for the domain of a valid candidate raises, that is, when
  every history query returns, \<^const>\<open>checkVisitedUrls\<close> returns a list, and a string is in
  it exactly when it is one of the candidates, is a valid http(s) URL, and one of the URLs
  that the history query for its domain returned has the same normalized form under the
  same ignored parameters. What is listed is the candidate as it was given, not its
  normalized form.
\<close>

theorem visited_iff_history_match:
  assumes "\<forall>u \<in> set us. isValidHttpUrl u \<longrightarrow>
             (\<forall>d. extractDomain u = Some d \<longrightarrow> (\<forall>e. history_search w d \<noteq> Raises e))"
  shows "\<exists>vs. fst (checkVisitedUrls us ps w) = Inr vs
           \<and> (\<forall>u. u \<in> set vs \<longleftrightarrow>
                  u \<in> set us \<and> isValidHttpUrl u
                  \<and> (\<exists>d hs h. extractDomain u = Some d \<and> fst (queryHistoryByDomain d w) = Inr hs
                        \<and> h \<in> set hs \<and> normalizeUrl h ps = normalizeUrl u ps))"
proof -
  from valid_no_raise_resolves [OF assms] obtain vs where vs: "fst (checkVisitedUrls us ps w) = Inr vs"
    by blast
  from checkVisitedUrls_set(1) [OF vs] vs show ?thesis
    by auto
qed

theorem visited_iff_history_match_witness:
  "history_search (sample_world NoResults) ''x.com'' = Results [''https://x.com/a'', ''https://x.com/b?a=1&b=2'']
   \<and> history_search (sample_world NoResults) ''y.com'' = NoResults
   \<and> (\<exists>vs. fst (checkVisitedUrls sample_urls [''utm_source''] (sample_world NoResults)) = Inr vs
         \<and> ''https://x.com/a?utm_source=x'' \<in> set vs \<and> ''https://y.com/c'' \<notin> set vs
         \<and> ''javascript:void(0)'' \<notin> set vs)"
proof -
  have h: "\<forall>u \<in> set sample_urls. isValidHttpUrl u \<longrightarrow>
             (\<forall>d. extractDomain u = Some d \<longrightarrow> (\<forall>e. history_search (sample_world NoResults) d \<noteq> Raises e))"
    by (simp add: sample_world_def)
  have r: "fst (checkVisitedUrls sample_urls [''utm_source''] (sample_world NoResults))
     = Inr [''https://x.com/a?utm_source=x'', ''https://x.com/a'', ''https://x.com/b?b=2&a=1'']"
    by code_simp
  have x: "history_search (sample_world NoResults) ''x.com'' = Results [''https://x.com/a'', ''https://x.com/b?a=1&b=2'']"
    and y: "history_search (sample_world NoResults) ''y.com'' = NoResults"
    by (simp_all add: sample_world_def)
  from visited_iff_history_match [OF h, of "[''utm_source'']"] r x y show ?thesis
    by auto
qed

text \<open>
  C2 says that a failing history query of one domain never empties the result of the
  batch. That holds of a search that fails by answering with no result. A search that
  raises rejects its promise; \<^verbatim>\<open>Promise.all\<close> then rejects, and the handler's
  \<^verbatim>\<open>catch\<close> answers with an empty list and the error message
  (\<open>raised_search_rejects\<close>), although the candidate \<^verbatim>\<open>https://x.com/a\<close> is in the
  history of the other domain.
\<close>

theorem raising_search_empties_batch:
  "history_search (sample_world (Raises (Error ''history unavailable''))) ''x.com''
     = Results [''https://x.com/a'', ''https://x.com/b?a=1&b=2'']
   \<and> history_search (sample_world (Raises (Error ''history unavailable''))) ''y.com''
     = Raises (Error ''history unavailable'')
   \<and> ''https://x.com/a'' \<in> set sample_urls \<and> ''https://y.com/c'' \<in> set sample_urls
   \<and> extractDomain ''https://x.com/a'' = Some ''x.com''
   \<and> extractDomain ''https://y.com/c'' = Some ''y.com''
   \<and> fst (handleCheckVisited \<lparr>urls = Some sample_urls\<rparr> (sample_world (Raises (Error ''history unavailable''))))
     = \<lparr>visitedUrls = [], config = DEFAULT_CONFIG, error = Some ''history unavailable''\<rparr>"
  by code_simp

text \<open>
  C2, amended. With the feature enabled, let the search for one domain fail by answering
  with no result, and let no search for a candidate's domain raise. Then the handler
  answers without an error, no candidate of the failing domain is listed, and a candidate
  of any other domain is listed exactly when it is a valid http(s) URL whose normalized
  form is that of a URL returned by the history query for its domain.
\<close>

theorem failed_search_stays_local:
  assumes "enabled (getConfig w)"
      and "history_search w dfail = NoResults"
      and "\<forall>u \<in> set (case urls msg of None \<Rightarrow> [] | Some l \<Rightarrow> l). \<forall>d. extractDomain u = Some d \<longrightarrow> (\<forall>e. history_search w d \<noteq> Raises e)"
  shows "error (fst (handleCheckVisited msg w)) = None
         \<and> (\<forall>u. extractDomain u = Some dfail \<longrightarrow> u \<notin> set (visitedUrls (fst (handleCheckVisited msg w))))
         \<and> (\<forall>u d. extractDomain u = Some d \<and> d \<noteq> dfail \<longrightarrow>
               (u \<in> set (visitedUrls (fst (handleCheckVisited msg w))) \<longleftrightarrow>
                  u \<in> set (case urls msg of None \<Rightarrow> [] | Some l \<Rightarrow> l) \<and> isValidHttpUrl u
                  \<and> (\<exists>hs h. fst (queryHistoryByDomain d w) = Inr hs \<and> h \<in> set hs
                        \<and> normalizeUrl h (ignoreParams (getConfig w)) = normalizeUrl u (ignoreParams (getConfig w)))))"
proof -
  let ?us = "case urls msg of None \<Rightarrow> [] | Some l \<Rightarrow> l"
  let ?ps = "ignoreParams (getConfig w)"
  from no_raise_resolves [OF assms(3)] obtain vs where vs: "fst (checkVisitedUrls ?us ?ps w) = Inr vs"
    by blast
  have resp: "fst (handleCheckVisited msg w) = \<lparr>visitedUrls = vs, config = getConfig w, error = None\<rparr>"
    unfolding handleCheckVisited_enabled [OF assms(1)] using vs
    by (cases "checkVisitedUrls ?us ?ps w") simp
  have none: "fst (queryHistoryByDomain dfail w) = Inr []"
    using assms(2) by (simp add: queryHistoryByDomain_fst)
  note set = checkVisitedUrls_set(1) [OF vs]
  have "error (fst (handleCheckVisited msg w)) = None"
    by (simp add: resp)
  moreover have "u \<notin> set (visitedUrls (fst (handleCheckVisited msg w)))" if "extractDomain u = Some dfail" for u
    using that none by (auto simp: resp set)
  moreover have "u \<in> set (visitedUrls (fst (handleCheckVisited msg w))) \<longleftrightarrow>
                  u \<in> set ?us \<and> isValidHttpUrl u
                  \<and> (\<exists>hs h. fst (queryHistoryByDomain d w) = Inr hs \<and> h \<in> set hs
                        \<and> normalizeUrl h ?ps = normalizeUrl u ?ps)"
    if "extractDomain u = Some d" for u d
    using that by (auto simp: resp set)
  ultimately show ?thesis by blast
qed

theorem failed_search_stays_local_witness:
  "enabled (getConfig (sample_world NoResults))
   \<and> history_search (sample_world NoResults) ''y.com'' = NoResults
   \<and> history_search (sample_world NoResults) ''x.com'' = Results [''https://x.com/a'', ''https://x.com/b?a=1&b=2'']
   \<and> extractDomain ''https://y.com/c'' = Some ''y.com''
   \<and> fst (handleCheckVisited \<lparr>urls = Some sample_urls\<rparr> (sample_world NoResults))
      = \<lparr>visitedUrls = [''https://x.com/a?utm_source=x'', ''https://x.com/a'', ''https://x.com/b?b=2&a=1''],
         config = getConfig (sample_world NoResults), error = None\<rparr>
   \<and> ''https://y.com/c'' \<notin> set (visitedUrls (fst (handleCheckVisited \<lparr>urls = Some sample_urls\<rparr> (sample_world NoResults))))"
proof -
  have a: "enabled (getConfig (sample_world NoResults))"
    by (simp add: getConfig_def sample_world_def DEFAULT_CONFIG_def)
  have b: "history_search (sample_world NoResults) ''y.com'' = NoResults"
    by (simp add: sample_world_def)
  have c: "\<forall>u \<in> set (case urls \<lparr>urls = Some sample_urls\<rparr> of None \<Rightarrow> [] | Some l \<Rightarrow> l). \<forall>d. extractDomain u = Some d \<longrightarrow> (\<forall>e. history_search (sample_world NoResults) d \<noteq> Raises e)"
    by (simp add: sample_world_def)
  have d: "extractDomain ''https://y.com/c'' = Some ''y.com''"
    by code_simp
  have e: "fst (handleCheckVisited \<lparr>urls = Some sample_urls\<rparr> (sample_world NoResults))
      = \<lparr>visitedUrls = [''https://x.com/a?utm_source=x'', ''https://x.com/a'', ''https://x.com/b?b=2&a=1''],
         config = getConfig (sample_world NoResults), error = None\<rparr>"
    by code_simp
  from failed_search_stays_local [OF a b c] d
  have "''https://y.com/c'' \<notin> set (visitedUrls (fst (handleCheckVisited \<lparr>urls = Some sample_urls\<rparr> (sample_world NoResults))))"
    by blast
  moreover have "history_search (sample_world NoResults) ''x.com'' = Results [''https://x.com/a'', ''https://x.com/b?a=1&b=2'']"
    by (simp add: sample_world_def)
  ultimately show ?thesis using a b d e by simp
qed

lemma mset_concat_update_new:
  "map_of m k = None \<Longrightarrow> mset (concat (map snd (AList.update k [] m))) = mset (concat (map snd m))"
  by (induction m) (auto split: if_splits)

lemma mset_concat_map_entry:
  "k \<in> fst ` set m \<Longrightarrow>
     mset (concat (map snd (AList.map_entry k (\<lambda>vs. vs @ [v]) m))) = add_mset v (mset (concat (map snd m)))"
  by (induction m) (auto split: if_splits)

lemma mset_concat_map_push:
  "mset (concat (map snd (map_push k v m))) = add_mset v (mset (concat (map snd m)))"
proof (cases "map_of m k")
  case None
  have "k \<in> fst ` set (AList.update k [] m)"
    by (simp add: dom_update)
  then show ?thesis
    using None by (simp add: map_push_def mset_concat_map_entry mset_concat_update_new)
next
  case (Some vs)
  then have "k \<in> fst ` set m"
    by (meson domI domIff map_of_eq_None_iff)
  then show ?thesis
    using Some by (simp add: map_push_def mset_concat_map_entry)
qed

lemma mset_domainGroups:
  "mset (concat (map snd (domainGroups us ps))) = mset (filter isValidHttpUrl us)"
proof (induction us rule: rev_induct)
  case Nil
  show ?case by (simp add: domainGroups_Nil)
next
  case (snoc u us)
  show ?case
  proof (cases "isValidHttpUrl u")
    case True
    then obtain d where d: "in_group d u"
      using valid_in_group by blast
    then have "extractDomain u = Some d" by (simp add: in_group_def)
    with d True snoc show ?thesis
      by (simp add: domainGroups_snoc mset_concat_map_push)
  next
    case False
    then have "\<not> in_group d u" for d by (simp add: in_group_def)
    with False snoc show ?thesis
      by (simp add: domainGroups_snoc split: option.splits)
  qed
qed

lemma in_group_iff: "in_group d u \<longleftrightarrow> isValidHttpUrl u \<and> extractDomain u = Some d"
  using valid_in_group [of u] by (auto simp: in_group_def)

text \<open>
  C9 says that every valid candidate occurs exactly once across the groups. The grouping
  loop pushes every valid candidate it meets, so a candidate given twice is in its group
  twice.
\<close>

theorem duplicate_candidate_grouped_twice:
  "isValidHttpUrl ''https://x.com/a''
   \<and> domainGroups [''https://x.com/a'', ''https://x.com/a''] [] = [(''x.com'', [''https://x.com/a'', ''https://x.com/a''])]
   \<and> count_list (concat (map snd (domainGroups [''https://x.com/a'', ''https://x.com/a''] []))) ''https://x.com/a'' = 2"
  by code_simp

text \<open>
  C9, amended. The groups have distinct domains; the group of a domain lists, in the order
  of the input, the valid http(s) candidates of that domain and nothing else; so the
  groups together hold every valid candidate as often as the input list does, and exactly
  once when the input list has no repetition.
\<close>

theorem domain_groups_partition:
  "distinct (map fst (domainGroups us ps))
   \<and> (\<forall>(d, g) \<in> set (domainGroups us ps).
         g = filter (\<lambda>u. isValidHttpUrl u \<and> extractDomain u = Some d) us)
   \<and> mset (concat (map snd (domainGroups us ps))) = mset (filter isValidHttpUrl us)
   \<and> (distinct us \<longrightarrow> distinct (concat (map snd (domainGroups us ps))))"
proof -
  have a: "g = filter (\<lambda>u. isValidHttpUrl u \<and> extractDomain u = Some d) us"
    if "(d, g) \<in> set (domainGroups us ps)" for d g
    using that unfolding domainGroups_member in_group_iff [abs_def] by simp
  have b: "distinct (concat (map snd (domainGroups us ps)))" if "distinct us"
  proof -
    from that have "distinct (filter isValidHttpUrl us)" by simp
    then show ?thesis
      using mset_domainGroups [of us ps] mset_eq_imp_distinct_iff by blast
  qed
  from a b show ?thesis
    using distinct_domainGroups [of us ps] mset_domainGroups [of us ps] by blast
qed

theorem domain_groups_partition_witness:
  "domainGroups sample_urls [''utm_source'']
     = [(''x.com'', [''https://x.com/a?utm_source=x'', ''https://x.com/a'', ''https://x.com/a'', ''https://x.com/b?b=2&a=1'']),
        (''y.com'', [''https://y.com/c''])]
   \<and> filter isValidHttpUrl sample_urls
     = [''https://x.com/a?utm_source=x'', ''https://y.com/c'', ''https://x.com/a'', ''https://x.com/a'', ''https://x.com/b?b=2&a=1'']
   \<and> distinct [''https://x.com/a'', ''https://y.com/c'']
   \<and> distinct (concat (map snd (domainGroups [''https://x.com/a'', ''https://y.com/c''] [])))
   \<and> [''https://y.com/c''] = filter (\<lambda>u. isValidHttpUrl u \<and> extractDomain u = Some ''y.com'') sample_urls"
proof -
  have g: "domainGroups sample_urls [''utm_source'']
     = [(''x.com'', [''https://x.com/a?utm_source=x'', ''https://x.com/a'', ''https://x.com/a'', ''https://x.com/b?b=2&a=1'']),
        (''y.com'', [''https://y.com/c''])]"
    by code_simp
  have f: "filter isValidHttpUrl sample_urls
     = [''https://x.com/a?utm_source=x'', ''https://y.com/c'', ''https://x.com/a'', ''https://x.com/a'', ''https://x.com/b?b=2&a=1'']"
    by code_simp
  have d: "distinct [''https://x.com/a'', ''https://y.com/c'']"
    by simp
  note p = domain_groups_partition [of sample_urls "[''utm_source'']"]
  note q = domain_groups_partition [of "[''https://x.com/a'', ''https://y.com/c'']" "[]"]
  from q d have "distinct (concat (map snd (domainGroups [''https://x.com/a'', ''https://y.com/c''] [])))"
    by blast
  moreover from p g have "[''https://y.com/c''] = filter (\<lambda>u. isValidHttpUrl u \<and> extractDomain u = Some ''y.com'') sample_urls"
    by auto
  ultimately show ?thesis using g f d by simp
qed

lemma update_steps_twice [simp]:
  "update_steps l (update_steps l' u) = update_steps l u"
  by (simp add: update_steps_def)

lemma update_steps_fields [simp]:
  "searchParams (update_steps l u) = l"
  "scheme (update_steps l u) = scheme u"
  "host (update_steps l u) = host u"
  "port (update_steps l u) = port u"
  "path (update_steps l u) = path u"
  "fragment (update_steps l u) = fragment u"
  "query (update_steps l u) =
     (if urlencoded_serialize l = [] then None else Some (urlencoded_serialize l))"
  by (simp_all add: update_steps_def)

lemma delete_loop:
  "searchParams_sort (foldl (\<lambda>u key. searchParams_delete key u) u ks) =
     update_steps (sort_key fst (filter (\<lambda>p. fst p \<notin> set ks) (searchParams u))) u"
proof (induction ks arbitrary: u)
  case Nil
  show ?case by (simp add: searchParams_sort_def)
next
  case (Cons k ks)
  have "filter (\<lambda>p. fst p \<notin> set ks) (filter (\<lambda>(k', v). k' \<noteq> k) l)
          = filter (\<lambda>p. fst p \<notin> set (k # ks)) l" for l :: "(string \<times> string) list"
    by (induction l) auto
  then show ?case
    by (simp add: Cons.IH) (simp add: searchParams_delete_def)
qed

lemma normalized_eq:
  "normalized u ps =
     update_steps (sort_key fst (filter (\<lambda>p. \<not> ignored ps (fst p)) (searchParams u))) u"
proof (cases "ps = []")
  case True
  then show ?thesis
    by (simp add: normalized_unfold ignored_def searchParams_sort_def)
next
  case False
  have "filter (\<lambda>p. fst p \<notin> set (filter (\<lambda>key. toLowerCase key \<in> set (map toLowerCase ps)) (searchParams_keys u)))
          (searchParams u)
        = filter (\<lambda>p. \<not> ignored ps (fst p)) (searchParams u)"
    by (rule filter_cong) (auto simp: ignored_def searchParams_keys_def)
  with False show ?thesis
    by (simp add: normalized_unfold delete_loop)
qed

lemma normalizeUrl_http:
  assumes "URL_new url = Inr u" and "scheme u = ''http'' \<or> scheme u = ''https''"
  shows "normalizeUrl url ps = URL_toString (normalized u ps)"
  using assms by (auto simp: normalizeUrl_def normalizeUrl_body_def valid_protocol_iff)

lemma URL_toString_update:
  "same_but_query u v \<Longrightarrow> URL_toString (update_steps l u) = URL_toString (update_steps l v)"
  by (simp add: URL_toString_def same_but_query_def)

lemma mset_from_names:
  assumes "\<And>k. filter (\<lambda>p. fst p = k) xs = filter (\<lambda>p. fst p = k) ys"
  shows "mset xs = mset ys"
proof (rule multiset_eqI)
  fix p :: "'a \<times> 'b"
  have c: "count (mset l) p = count (mset (filter (\<lambda>q. fst q = fst p) l)) p" for l
    by (induction l) auto
  have "count (mset xs) p = count (mset (filter (\<lambda>q. fst q = fst p) xs)) p"
    by (rule c)
  also have "\<dots> = count (mset (filter (\<lambda>q. fst q = fst p) ys)) p"
    by (simp only: assms [of "fst p"])
  also have "\<dots> = count (mset ys) p"
    by (rule c [symmetric])
  finally show "count (mset xs) p = count (mset ys) p" .
qed

lemma sort_key_same_names:
  assumes "\<And>k. filter (\<lambda>p. fst p = k) xs = filter (\<lambda>p. fst p = k) ys"
  shows "sort_key fst xs = sort_key fst ys"
proof (rule properties_for_sort_key)
  show "mset (sort_key fst ys) = mset xs"
    using mset_from_names [of xs ys] assms by simp
  show "sorted (map fst (sort_key fst ys))"
    by simp
  show "filter (\<lambda>x. fst k = fst x) (sort_key fst ys) = filter (\<lambda>x. fst k = fst x) xs" for k
  proof -
    have e: "(\<lambda>x. fst k = fst x) = (\<lambda>x. fst x = fst k)" by auto
    show ?thesis
      unfolding e sort_key_stable using assms [of "fst k"] by simp
  qed
qed

section \<open>What the normalizer does to the search parameters\<close>

text \<open>
  C4 says that any reordering of the query parameters leaves the normalized form
  unchanged, also one that swaps two parameters of the same name. The sort of
  \<^verbatim>\<open>searchParams\<close> is stable and compares names only: two parameters of one name
  keep the order in which they came.
\<close>

theorem same_name_order_matters:
  "URL_new ''https://x.com/p?a=1&a=2'' =
     Inr \<lparr>scheme = ''https'', host = ''x.com'', port = None, path = [''p''], query = Some ''a=1&a=2'',
          fragment = None, searchParams = [(''a'', ''1''), (''a'', ''2'')]\<rparr>
   \<and> URL_new ''https://x.com/p?a=2&a=1'' =
     Inr \<lparr>scheme = ''https'', host = ''x.com'', port = None, path = [''p''], query = Some ''a=2&a=1'',
          fragment = None, searchParams = [(''a'', ''2''), (''a'', ''1'')]\<rparr>
   \<and> normalizeUrl ''https://x.com/p?a=1&a=2'' [] = ''https://x.com/p?a=1&a=2''
   \<and> normalizeUrl ''https://x.com/p?a=2&a=1'' [] = ''https://x.com/p?a=2&a=1''"
  by code_simp

text \<open>
  C4, amended. Let two valid http(s) URLs differ in their query only, and let the
  parameters of each name come in the same order in both (then the parameters of one are
  a reordering of those of the other, and any reordering of parameters with distinct
  names is of this kind). Then both have the same normalized form, under every list of
  ignored parameters.
\<close>

theorem parameter_order_irrelevant:
  assumes "URL_new url1 = Inr u1" and "URL_new url2 = Inr u2"
      and "scheme u1 = ''http'' \<or> scheme u1 = ''https''"
      and "same_but_query u1 u2"
      and "\<forall>k. filter (\<lambda>p. fst p = k) (searchParams u1) = filter (\<lambda>p. fst p = k) (searchParams u2)"
  shows "mset (searchParams u1) = mset (searchParams u2)
         \<and> normalizeUrl url1 ps = normalizeUrl url2 ps"
proof -
  from assms(3,4) have s2: "scheme u2 = ''http'' \<or> scheme u2 = ''https''"
    by (simp add: same_but_query_def)
  have "filter (\<lambda>p. fst p = k) (filter (\<lambda>p. \<not> ignored ps (fst p)) (searchParams u1))
        = filter (\<lambda>p. fst p = k) (filter (\<lambda>p. \<not> ignored ps (fst p)) (searchParams u2))" for k
  proof -
    have sw: "filter (\<lambda>p. fst p = k) (filter (\<lambda>p. \<not> ignored ps (fst p)) l)
          = filter (\<lambda>p. \<not> ignored ps (fst p)) (filter (\<lambda>p. fst p = k) l)" for l :: "(string \<times> string) list"
      by (induction l) auto
    from assms(5) have "filter (\<lambda>p. fst p = k) (searchParams u1) = filter (\<lambda>p. fst p = k) (searchParams u2)"
      by blast
    then show ?thesis
      unfolding sw by (rule arg_cong)
  qed
  then have "sort_key fst (filter (\<lambda>p. \<not> ignored ps (fst p)) (searchParams u1))
             = sort_key fst (filter (\<lambda>p. \<not> ignored ps (fst p)) (searchParams u2))"
    by (rule sort_key_same_names)
  then have "URL_toString (normalized u1 ps) = URL_toString (normalized u2 ps)"
    unfolding normalized_eq using URL_toString_update [OF assms(4)] by simp
  moreover have "mset (searchParams u1) = mset (searchParams u2)"
    using assms(5) by (intro mset_from_names) simp
  ultimately show ?thesis
    using normalizeUrl_http [OF assms(1,3)] normalizeUrl_http [OF assms(2) s2] by simp
qed

theorem parameter_order_irrelevant_witness:
  "normalizeUrl ''https://x.com/a?b=2&a=1&b=3'' [] = ''https://x.com/a?a=1&b=2&b=3''
   \<and> normalizeUrl ''https://x.com/a?b=2&b=3&a=1'' [] = normalizeUrl ''https://x.com/a?b=2&a=1&b=3'' []"
proof -
  let ?u1 = "\<lparr>scheme = ''https'', host = ''x.com'', port = None, path = [''a''], query = Some ''b=2&a=1&b=3'',
          fragment = None, searchParams = [(''b'', ''2''), (''a'', ''1''), (''b'', ''3'')]\<rparr>"
  let ?u2 = "\<lparr>scheme = ''https'', host = ''x.com'', port = None, path = [''a''], query = Some ''b=2&b=3&a=1'',
          fragment = None, searchParams = [(''b'', ''2''), (''b'', ''3''), (''a'', ''1'')]\<rparr>"
  have p1: "URL_new ''https://x.com/a?b=2&a=1&b=3'' = Inr ?u1"
    by code_simp
  have p2: "URL_new ''https://x.com/a?b=2&b=3&a=1'' = Inr ?u2"
    by code_simp
  have s: "scheme ?u1 = ''http'' \<or> scheme ?u1 = ''https''"
    by simp
  have q: "same_but_query ?u1 ?u2"
    by (simp add: same_but_query_def)
  have f: "\<forall>k. filter (\<lambda>p. fst p = k) (searchParams ?u1) = filter (\<lambda>p. fst p = k) (searchParams ?u2)"
    by auto
  have v: "normalizeUrl ''https://x.com/a?b=2&a=1&b=3'' [] = ''https://x.com/a?a=1&b=2&b=3''"
    by code_simp
  from parameter_order_irrelevant [OF p1 p2 s q f, of "[]"] v show ?thesis
    by simp
qed

lemma join_with_Cons_nonempty: "s \<noteq> [] \<Longrightarrow> join_with c (s # ss) \<noteq> []"
  by (cases ss) auto

lemma urlencoded_serialize_empty_iff [simp]: "urlencoded_serialize l = [] \<longleftrightarrow> l = []"
proof (cases l)
  case Nil
  then show ?thesis by (simp add: urlencoded_serialize_def)
next
  case (Cons p l')
  then show ?thesis
    by (cases p) (simp add: urlencoded_serialize_def join_with_Cons_nonempty)
qed

lemma ignored_iff: "ignored ps name \<longleftrightarrow> toLowerCase name \<in> toLowerCase ` set ps"
  by (simp add: ignored_def)

lemma filter_ignored_values:
  assumes "list_all2 (\<lambda>p q. fst p = fst q \<and> (\<not> ignored ps (fst p) \<longrightarrow> snd p = snd q)) xs ys"
  shows "filter (\<lambda>p. \<not> ignored ps (fst p)) xs = filter (\<lambda>p. \<not> ignored ps (fst p)) ys"
  using assms
proof (induction rule: list_all2_induct)
  case Nil
  show ?case by simp
next
  case (Cons x xs y ys)
  then show ?case
    by (cases x; cases y) auto
qed

text \<open>
  C5. For a valid http(s) URL, \<^const>\<open>normalizeUrl\<close> serializes the URL object after
  the removal and the sort. In that object no parameter is left whose lower-cased name
  is the lower-cased form of an ignored name, the parameters left are exactly the others,
  and the query is their serialization. The values of the removed parameters play no
  part: a second URL that differs from the first in the query only, with the same
  parameter names in the same places and the same values wherever the name is not
  ignored, has the same normalized form.
\<close>

theorem ignored_parameters_removed:
  assumes "URL_new url = Inr u" and "scheme u = ''http'' \<or> scheme u = ''https''"
  shows "normalizeUrl url ps = URL_toString (normalized u ps)
         \<and> (\<forall>p \<in> set (searchParams (normalized u ps)). toLowerCase (fst p) \<notin> toLowerCase ` set ps)
         \<and> mset (searchParams (normalized u ps))
             = mset (filter (\<lambda>p. toLowerCase (fst p) \<notin> toLowerCase ` set ps) (searchParams u))
         \<and> query (normalized u ps)
             = (if searchParams (normalized u ps) = [] then None
                else Some (urlencoded_serialize (searchParams (normalized u ps))))
         \<and> (\<forall>url' u'. URL_new url' = Inr u' \<and> same_but_query u u'
                \<and> list_all2 (\<lambda>p q. fst p = fst q
                                \<and> (toLowerCase (fst p) \<notin> toLowerCase ` set ps \<longrightarrow> snd p = snd q))
                     (searchParams u) (searchParams u')
              \<longrightarrow> normalizeUrl url' ps = normalizeUrl url ps)"
proof -
  have a: "normalizeUrl url ps = URL_toString (normalized u ps)"
    by (rule normalizeUrl_http [OF assms])
  have sp: "searchParams (normalized u ps) = sort_key fst (filter (\<lambda>p. \<not> ignored ps (fst p)) (searchParams u))"
    by (simp add: normalized_eq)
  have b: "\<forall>p \<in> set (searchParams (normalized u ps)). toLowerCase (fst p) \<notin> toLowerCase ` set ps"
    unfolding sp by (simp add: ignored_iff)
  have c: "mset (searchParams (normalized u ps))
             = mset (filter (\<lambda>p. toLowerCase (fst p) \<notin> toLowerCase ` set ps) (searchParams u))"
    unfolding sp by (simp add: ignored_iff)
  have d: "query (normalized u ps)
             = (if searchParams (normalized u ps) = [] then None
                else Some (urlencoded_serialize (searchParams (normalized u ps))))"
    by (simp add: normalized_eq)
  have e: "normalizeUrl url' ps = normalizeUrl url ps"
    if n: "URL_new url' = Inr u'" and q: "same_but_query u u'"
      and l: "list_all2 (\<lambda>p q. fst p = fst q
                                \<and> (toLowerCase (fst p) \<notin> toLowerCase ` set ps \<longrightarrow> snd p = snd q))
                     (searchParams u) (searchParams u')" for url' u'
  proof -
    from q assms(2) have s': "scheme u' = ''http'' \<or> scheme u' = ''https''"
      by (simp add: same_but_query_def)
    from l have "filter (\<lambda>p. \<not> ignored ps (fst p)) (searchParams u)
                 = filter (\<lambda>p. \<not> ignored ps (fst p)) (searchParams u')"
      by (intro filter_ignored_values) (simp add: ignored_iff)
    then have "URL_toString (normalized u ps) = URL_toString (normalized u' ps)"
      unfolding normalized_eq using URL_toString_update [OF q] by simp
    with a normalizeUrl_http [OF n s'] show ?thesis by simp
  qed
  from a b c d e show ?thesis by blast
qed

theorem ignored_parameters_removed_witness:
  "normalizeUrl ''https://x.com/a?UTM_Source=news&b=1'' [''utm_source''] = ''https://x.com/a?b=1''
   \<and> normalizeUrl ''https://x.com/a?UTM_Source=mail&b=1'' [''utm_source''] = ''https://x.com/a?b=1''
   \<and> toLowerCase ''UTM_Source'' = toLowerCase ''utm_source''"
proof -
  let ?u = "\<lparr>scheme = ''https'', host = ''x.com'', port = None, path = [''a''],
             query = Some ''UTM_Source=news&b=1'', fragment = None,
             searchParams = [(''UTM_Source'', ''news''), (''b'', ''1'')]\<rparr>"
  let ?v = "\<lparr>scheme = ''https'', host = ''x.com'', port = None, path = [''a''],
             query = Some ''UTM_Source=mail&b=1'', fragment = None,
             searchParams = [(''UTM_Source'', ''mail''), (''b'', ''1'')]\<rparr>"
  have p1: "URL_new ''https://x.com/a?UTM_Source=news&b=1'' = Inr ?u"
    by code_simp
  have p2: "URL_new ''https://x.com/a?UTM_Source=mail&b=1'' = Inr ?v"
    by code_simp
  have s: "scheme ?u = ''http'' \<or> scheme ?u = ''https''"
    by simp
  have q: "same_but_query ?u ?v"
    by (simp add: same_but_query_def)
  have low: "toLowerCase ''UTM_Source'' = ''utm_source''" "toLowerCase ''utm_source'' = ''utm_source''"
    by code_simp+
  have l: "list_all2 (\<lambda>p q. fst p = fst q
             \<and> (toLowerCase (fst p) \<notin> toLowerCase ` set [''utm_source''] \<longrightarrow> snd p = snd q))
           (searchParams ?u) (searchParams ?v)"
    by (simp add: low)
  have v: "normalizeUrl ''https://x.com/a?UTM_Source=news&b=1'' [''utm_source''] = ''https://x.com/a?b=1''"
    by code_simp
  from ignored_parameters_removed [OF p1 s, of "[''utm_source'']"] p2 q l
  have "normalizeUrl ''https://x.com/a?UTM_Source=mail&b=1'' [''utm_source'']
          = normalizeUrl ''https://x.com/a?UTM_Source=news&b=1'' [''utm_source'']"
    by blast
  with v low show ?thesis by simp
qed

section \<open>A serialized URL parses to itself\<close>

subsection \<open>Characters and percent-encoding\<close>

lemmas char_defs =
  is_alpha_def is_digit_def is_alnum_def is_slash_def authority_end_def
  forbidden_domain_code_point_def c0_control_set_def fragment_set_def query_set_def
  special_query_set_def path_set_def urlencoded_set_def is_c0_or_space_def
  is_tab_or_newline_def is_scheme_char_def unreserved_def less_eq_char_def less_char_def

lemma unreserved_safe: "unreserved c \<Longrightarrow> \<not> special_query_set c"
  by (auto simp: char_defs)

lemma hex_digit_alnum: "n < 16 \<Longrightarrow> is_alnum (hex_digit n)"
  by (auto simp: hex_digit_def char_defs)

lemma hex_val_hex_digit: "n < 16 \<Longrightarrow> hex_val (hex_digit n) = Some n"
  by (auto simp: hex_digit_def hex_val_def char_defs)

lemma percent_encode_byte_chars:
  "x \<in> set (percent_encode_byte c) \<Longrightarrow> x = CHR ''%'' \<or> is_alnum x"
proof -
  have "(of_char c :: nat) < 256" by simp
  then have "(of_char c :: nat) div 16 < 16" "(of_char c :: nat) mod 16 < 16"
    by arith+
  then show "x \<in> set (percent_encode_byte c) \<Longrightarrow> x = CHR ''%'' \<or> is_alnum x"
    by (auto simp: percent_encode_byte_def hex_digit_alnum)
qed

lemma alnum_safe:
  assumes "x = CHR ''%'' \<or> is_alnum x"
  shows "\<not> path_set x" "\<not> special_query_set x" "\<not> fragment_set x" "\<not> is_slash x"
    "x \<noteq> CHR ''+''" "x \<noteq> CHR ''=''" "x \<noteq> CHR ''&''" "unreserved x"
  using assms by (auto simp: char_defs)

lemma percent_decode_byte:
  "percent_decode (percent_encode_byte c @ rest) = c # percent_decode rest"
proof -
  have "(of_char c :: nat) < 256" by simp
  then have d: "(of_char c :: nat) div 16 < 16" "(of_char c :: nat) mod 16 < 16"
    by arith+
  have "char_of (16 * ((of_char c :: nat) div 16) + of_char c mod 16) = c"
    by simp
  then show ?thesis
    by (simp add: percent_encode_byte_def hex_val_hex_digit d)
qed

lemma percent_encode_fixed:
  "(\<forall>c \<in> set s. \<not> P c) \<Longrightarrow> percent_encode P s = s"
  by (induction s) (auto simp: percent_encode_def)

lemma percent_encode_chars:
  assumes "x \<in> set (percent_encode P s)"
  shows "\<not> P x \<or> x = CHR ''%'' \<or> is_alnum x"
  using assms by (auto simp: percent_encode_def dest: percent_encode_byte_chars split: if_splits)

subsection \<open>Form encoding\<close>

lemma urlencoded_byte_chars:
  "x \<in> set (urlencoded_byte c) \<Longrightarrow> unreserved x \<and> x \<noteq> CHR ''='' \<and> x \<noteq> CHR ''&''"
  by (auto simp: urlencoded_byte_def alnum_safe dest!: percent_encode_byte_chars split: if_splits)
     (auto simp: char_defs)

lemma urlencoded_string_chars:
  "x \<in> set (urlencoded_string s) \<Longrightarrow> unreserved x \<and> x \<noteq> CHR ''='' \<and> x \<noteq> CHR ''&''"
  unfolding urlencoded_string_def using urlencoded_byte_chars by auto

lemma plus_to_space_encoded_byte: "plus_to_space (percent_encode_byte c) = percent_encode_byte c"
  unfolding plus_to_space_def
  by (rule map_idI) (auto dest!: percent_encode_byte_chars simp: char_defs)

lemma decode_urlencoded_string:
  "percent_decode (plus_to_space (urlencoded_string s)) = s"
proof (induction s)
  case Nil
  show ?case by (simp add: urlencoded_string_def plus_to_space_def)
next
  case (Cons c s)
  have step: "plus_to_space (urlencoded_string (c # s))
                = plus_to_space (urlencoded_byte c) @ plus_to_space (urlencoded_string s)"
    by (simp add: urlencoded_string_def plus_to_space_def)
  show ?case
  proof (cases "c = CHR 0x20")
    case True
    then show ?thesis
      unfolding step
      by (simp add: urlencoded_byte_def plus_to_space_def Cons.IH [unfolded plus_to_space_def])
  next
    case False
    show ?thesis
    proof (cases "urlencoded_set c")
      case True
      with False show ?thesis
        unfolding step
        by (simp add: urlencoded_byte_def plus_to_space_encoded_byte percent_decode_byte Cons.IH)
    next
      case no: False
      then have "c \<noteq> CHR ''+''" "c \<noteq> CHR ''%''"
        by (auto simp: char_defs)
      with no False show ?thesis
        unfolding step
        by (simp add: urlencoded_byte_def plus_to_space_def Cons.IH [unfolded plus_to_space_def])
    qed
  qed
qed

lemma urlencoded_pair_encoded:
  "urlencoded_pair (urlencoded_string n @ CHR ''='' # urlencoded_string v) = (n, v)"
proof -
  have ne: "\<forall>x \<in> set (urlencoded_string n). x \<noteq> CHR ''=''"
    using urlencoded_string_chars by blast
  then have t: "takeWhile (\<lambda>c. c \<noteq> CHR ''='') (urlencoded_string n @ CHR ''='' # urlencoded_string v)
                  = urlencoded_string n"
    by (simp add: takeWhile_append2)
  from ne have d: "dropWhile (\<lambda>c. c \<noteq> CHR ''='') (urlencoded_string n @ CHR ''='' # urlencoded_string v)
                  = CHR ''='' # urlencoded_string v"
    by (simp add: dropWhile_append2)
  show ?thesis
    unfolding urlencoded_pair_def Let_def t d by (simp add: decode_urlencoded_string)
qed

lemma split_on_nonempty [simp]: "split_on P s \<noteq> []"
  by (induction s) (auto split: list.splits)

lemma split_on_none: "(\<forall>c \<in> set s. \<not> P c) \<Longrightarrow> split_on P s = [s]"
  by (induction s) auto

lemma split_on_append:
  "(\<forall>c \<in> set s. \<not> P c) \<Longrightarrow> P sep \<Longrightarrow> split_on P (s @ sep # rest) = s # split_on P rest"
proof (induction s)
  case Nil
  then show ?case by (cases "split_on P rest") auto
next
  case (Cons c s)
  then show ?case by simp
qed

lemma split_on_join:
  "xs \<noteq> [] \<Longrightarrow> (\<forall>s \<in> set xs. \<forall>c \<in> set s. \<not> P c) \<Longrightarrow> P sep \<Longrightarrow>
     split_on P (join_with sep xs) = xs"
proof (induction sep xs rule: join_with.induct)
  case (1 sep)
  then show ?case by simp
next
  case (2 sep s)
  then show ?case by (simp add: split_on_none)
next
  case (3 sep s t ss)
  then show ?case by (simp add: split_on_append)
qed

lemma split_on_parts_all: "\<forall>seg \<in> set (split_on P s). \<forall>c \<in> set seg. \<not> P c"
  by (induction s) (auto split: list.splits)

lemma split_on_parts: "seg \<in> set (split_on P s) \<Longrightarrow> c \<in> set seg \<Longrightarrow> \<not> P c"
  using split_on_parts_all by blast

lemma urlencoded_parse_serialize: "urlencoded_parse (urlencoded_serialize l) = l"
proof (cases "l = []")
  case True
  then show ?thesis
    by (simp add: urlencoded_parse_def urlencoded_serialize_def)
next
  case False
  let ?f = "\<lambda>(name, val). urlencoded_string name @ CHR ''='' # urlencoded_string val"
  have "\<forall>s \<in> set (map ?f l). \<forall>c \<in> set s. \<not> c = CHR ''&''"
    using urlencoded_string_chars by fastforce
  with False have sp: "split_on (\<lambda>c. c = CHR ''&'') (join_with (CHR ''&'') (map ?f l)) = map ?f l"
    by (intro split_on_join) auto
  have ne: "filter (\<lambda>bytes. bytes \<noteq> []) (map ?f l) = map ?f l"
    by (rule filter_True) auto
  have "map urlencoded_pair (map ?f l) = l"
    by (induction l) (auto simp: urlencoded_pair_encoded)
  then show ?thesis
    unfolding urlencoded_parse_def urlencoded_serialize_def sp ne .
qed

lemma urlencoded_serialize_chars:
  assumes "x \<in> set (urlencoded_serialize l)"
  shows "unreserved x"
proof -
  have j: "x \<in> set (join_with c xs) \<Longrightarrow> x = c \<or> (\<exists>s \<in> set xs. x \<in> set s)" for c xs
    by (induction c xs rule: join_with.induct) auto
  from j [OF assms [unfolded urlencoded_serialize_def]]
  consider "x = CHR ''&''"
    | n v where "x \<in> set (urlencoded_string n @ CHR ''='' # urlencoded_string v)"
    by auto
  then show ?thesis
  proof cases
    case 1
    then show ?thesis by (simp add: unreserved_def)
  next
    case 2
    then have "x \<in> set (urlencoded_string n) \<or> x = CHR ''='' \<or> x \<in> set (urlencoded_string v)"
      by auto
    then show ?thesis
      using urlencoded_string_chars [of x] by (auto simp: unreserved_def)
  qed
qed

subsection \<open>Numbers\<close>

lemma digit_char: "d < 10 \<Longrightarrow> is_digit (char_of (48 + d)) \<and> digit_val (char_of (48 + d)) = d"
  by (auto simp: digit_val_def char_defs)

lemma decimal_snoc: "decimal (ds @ [c]) = 10 * decimal ds + digit_val c"
  by (simp add: decimal_def)

lemma show_nat_digits: "show_nat n \<noteq> [] \<and> (\<forall>c \<in> set (show_nat n). is_digit c) \<and> decimal (show_nat n) = n"
proof (induction n rule: show_nat.induct)
  case (1 n)
  show ?case
  proof (cases "n < 10")
    case True
    then show ?thesis
      using digit_char [of n] by (subst (1 2 3) show_nat.simps) (simp add: decimal_def)
  next
    case False
    have "n mod 10 < 10" by simp
    from digit_char [OF this] 1 [OF False] False show ?thesis
      by (subst (1 2 3) show_nat.simps) (auto simp: decimal_snoc)
  qed
qed

subsection \<open>Paths\<close>

lemma no_dot_Nil [simp]: "\<not> single_dot []" "\<not> double_dot []"
  by (simp_all add: single_dot_def double_dot_def toLowerCase_def)

lemma segment_ok_Nil [simp]: "segment_ok []"
  by (simp add: segment_ok_def)

lemma path_segment_ok:
  assumes "\<forall>s \<in> set acc. segment_ok s" and "\<forall>c \<in> set buffer. \<not> path_set c \<and> \<not> is_slash c"
  shows "\<forall>s \<in> set (path_segment buffer acc slash). segment_ok s"
  using assms by (auto simp: path_segment_def segment_ok_def dest: in_set_butlastD)

lemma encoded_segment_chars:
  assumes "\<forall>c \<in> set s. \<not> is_slash c"
  shows "\<forall>c \<in> set (percent_encode path_set s). \<not> path_set c \<and> \<not> is_slash c"
proof (intro ballI)
  fix c
  assume c: "c \<in> set (percent_encode path_set s)"
  from percent_encode_chars [OF c] have "\<not> path_set c"
    using alnum_safe(1) by blast
  moreover have "\<not> is_slash c"
    using c assms by (auto simp: percent_encode_def alnum_safe(4) dest!: percent_encode_byte_chars split: if_splits)
  ultimately show "\<not> path_set c \<and> \<not> is_slash c" by simp
qed

lemma path_state_ok:
  assumes "\<forall>s \<in> set acc. segment_ok s" and "\<forall>s \<in> set segs. \<forall>c \<in> set s. \<not> is_slash c"
  shows "\<forall>s \<in> set (path_state segs acc). segment_ok s"
  using assms
proof (induction segs acc rule: path_state.induct)
  case (1 acc)
  then show ?case by simp
next
  case (2 s acc)
  then show ?case
    by (simp del: ball_simps) (intro path_segment_ok encoded_segment_chars; simp)
next
  case (3 s t ss acc)
  have "\<forall>x \<in> set (path_segment (percent_encode path_set s) acc True). segment_ok x"
    using 3(2,3) by (intro path_segment_ok encoded_segment_chars) simp_all
  with 3 show ?case by simp
qed

lemma path_state_nonempty: "segs \<noteq> [] \<Longrightarrow> path_state segs acc \<noteq> []"
  by (induction segs acc rule: path_state.induct) (auto simp: path_segment_def)

lemma path_start_ok: "path_start s \<noteq> [] \<and> (\<forall>x \<in> set (path_start s). segment_ok x)"
  unfolding path_start_def
  by (intro conjI path_state_nonempty path_state_ok) (auto dest: split_on_parts)

lemma path_state_fixed:
  assumes "\<forall>s \<in> set segs. segment_ok s"
  shows "path_state segs acc = acc @ segs"
  using assms
proof (induction segs acc rule: path_state.induct)
  case (1 acc)
  show ?case by simp
next
  case (2 s acc)
  then have "percent_encode path_set s = s"
    by (intro percent_encode_fixed) (simp add: segment_ok_def)
  with 2 show ?case
    by (simp add: path_segment_def segment_ok_def)
next
  case (3 s t ss acc)
  then have "percent_encode path_set s = s"
    by (intro percent_encode_fixed) (simp add: segment_ok_def)
  with 3 show ?case
    by (simp add: path_segment_def segment_ok_def)
qed

lemma serialized_path:
  "segs \<noteq> [] \<Longrightarrow> concat (map (\<lambda>seg. CHR ''/'' # seg) segs) = CHR ''/'' # join_with (CHR ''/'') segs"
  by (induction "CHR ''/''" segs rule: join_with.induct) auto

lemma path_start_serialized:
  assumes "segs \<noteq> []" and "\<forall>s \<in> set segs. segment_ok s"
  shows "path_start (concat (map (\<lambda>seg. CHR ''/'' # seg) segs)) = segs"
proof -
  have "split_on is_slash (join_with (CHR ''/'') segs) = segs"
    using assms by (intro split_on_join) (auto simp: segment_ok_def is_slash_def)
  then show ?thesis
    using assms by (simp add: serialized_path path_start_def is_slash_def path_state_fixed)
qed

subsection \<open>Well-formed URL records\<close>

lemma lower_char_cases: "lower_char c = c \<or> is_alpha (lower_char c)"
  by (auto simp: lower_char_def char_defs)

lemma alpha_allowed: "is_alpha x \<Longrightarrow> \<not> forbidden_domain_code_point x"
  by (auto simp: char_defs)

lemma lower_char_props:
  "\<not> forbidden_domain_code_point c \<Longrightarrow> \<not> forbidden_domain_code_point (lower_char c)"
  "lower_char (lower_char c) = lower_char c"
proof -
  show "\<not> forbidden_domain_code_point c \<Longrightarrow> \<not> forbidden_domain_code_point (lower_char c)"
    using lower_char_cases [of c] alpha_allowed by auto
  show "lower_char (lower_char c) = lower_char c"
    by (auto simp: lower_char_def char_defs)
qed

lemma host_parser_props:
  assumes "host_parser h = Some x"
  shows "x \<noteq> []" "\<forall>c \<in> set x. \<not> forbidden_domain_code_point c" "toLowerCase x = x"
  using assms
  by (auto simp: host_parser_def toLowerCase_def lower_char_props split: if_splits)

lemma port_state_props:
  assumes "port_state sch b = Some p"
  shows "case p of None \<Rightarrow> True | Some n \<Rightarrow> n \<le> 65535 \<and> default_port sch \<noteq> Some n"
  using assms by (auto simp: port_state_def split: if_splits)

lemma authority_state_props:
  assumes "authority_state sch b = Some (h, p)"
  shows "h \<noteq> []" "\<forall>c \<in> set h. \<not> forbidden_domain_code_point c" "toLowerCase h = h"
    "case p of None \<Rightarrow> True | Some n \<Rightarrow> n \<le> 65535 \<and> default_port sch \<noteq> Some n"
proof -
  from assms obtain b1 b2 where h: "host_parser b1 = Some h" and p: "port_state sch b2 = Some p"
    by (auto simp: authority_state_def Let_def split: option.splits)
  from host_parser_props [OF h] port_state_props [OF p]
  show "h \<noteq> []" "\<forall>c \<in> set h. \<not> forbidden_domain_code_point c" "toLowerCase h = h"
    "case p of None \<Rightarrow> True | Some n \<Rightarrow> n \<le> 65535 \<and> default_port sch \<noteq> Some n"
    by simp_all
qed

lemma encoded_query_chars: "\<forall>c \<in> set (percent_encode special_query_set q). \<not> special_query_set c"
  using percent_encode_chars alnum_safe(2) by blast

lemma encoded_fragment_chars: "\<forall>c \<in> set (percent_encode fragment_set f). \<not> fragment_set c"
  using percent_encode_chars alnum_safe(3) by blast

lemma special_URL_wf:
  assumes "special_URL sch remaining = Some u" and "sch = ''http'' \<or> sch = ''https''"
  shows "wf_URL u" and "searchParams u = []"
proof -
  from assms(1) obtain b h p pth qry frg where
    a: "authority_state sch b = Some (h, p)" and
    u: "u = \<lparr>scheme = sch, host = h, port = p, path = path_start pth,
             query = map_option (percent_encode special_query_set) qry,
             fragment = map_option (percent_encode fragment_set) frg, searchParams = []\<rparr>"
    unfolding special_URL_def Let_def by (auto split: option.splits)
  show "searchParams u = []" by (simp add: u)
  have q: "case map_option (percent_encode special_query_set) qry of None \<Rightarrow> True
           | Some q \<Rightarrow> \<forall>c \<in> set q. \<not> special_query_set c"
    using encoded_query_chars by (cases qry) auto
  have f: "case map_option (percent_encode fragment_set) frg of None \<Rightarrow> True
           | Some q \<Rightarrow> \<forall>c \<in> set q. \<not> fragment_set c"
    using encoded_fragment_chars by (cases frg) auto
  from authority_state_props [OF a] path_start_ok [of pth] q f assms(2)
  show "wf_URL u"
    unfolding wf_URL_def u by (simp split: option.splits)
qed

subsection \<open>Parsing a serialized URL\<close>

lemma takeWhile_stop:
  "(\<forall>c \<in> set a. P c) \<Longrightarrow> b = [] \<or> \<not> P (hd b) \<Longrightarrow> takeWhile P (a @ b) = a"
  by (cases b) (auto simp: takeWhile_append2)

lemma dropWhile_stop:
  "(\<forall>c \<in> set a. P c) \<Longrightarrow> b = [] \<or> \<not> P (hd b) \<Longrightarrow> dropWhile P (a @ b) = b"
  by (cases b) (auto simp: dropWhile_append2)

lemma preprocess_fixed:
  assumes "\<forall>c \<in> set s. \<not> is_c0_or_space c"
  shows "preprocess s = s"
proof -
  have d: "dropWhile is_c0_or_space t = t" if "\<forall>c \<in> set t. \<not> is_c0_or_space c" for t
    using that by (cases t) auto
  have "\<not> is_tab_or_newline c" if "c \<in> set s" for c
    using assms that by (auto simp: char_defs)
  then have "filter (\<lambda>c. \<not> is_tab_or_newline c) s = s"
    by (intro filter_True) simp
  with d [of s] d [of "rev s"] assms show ?thesis
    by (simp add: preprocess_def)
qed

lemma char_eq_nat: "c = d \<longleftrightarrow> (of_char c :: nat) = of_char d"
  by simp

lemma above_space:
  "\<not> forbidden_domain_code_point c \<Longrightarrow> \<not> is_c0_or_space c"
  "\<not> path_set c \<Longrightarrow> \<not> is_c0_or_space c"
  "\<not> special_query_set c \<Longrightarrow> \<not> is_c0_or_space c"
  "\<not> fragment_set c \<Longrightarrow> \<not> is_c0_or_space c"
  "is_digit c \<Longrightarrow> \<not> is_c0_or_space c"
  by (auto simp: char_defs char_eq_nat)

lemma URL_toString_parts:
  "URL_toString u =
     scheme u @ ''://'' @ host u @ port_text (port u) @ path_text (path u)
       @ query_text (query u) @ fragment_text (fragment u)"
  by (simp add: URL_toString_def port_text_def path_text_def query_text_def fragment_text_def)

lemma port_text_chars: "c \<in> set (port_text p) \<Longrightarrow> c = CHR '':'' \<or> is_digit c"
  using show_nat_digits by (auto simp: port_text_def split: option.splits)

lemma path_text_chars:
  "\<forall>s \<in> set segs. segment_ok s \<Longrightarrow> c \<in> set (path_text segs) \<Longrightarrow> c = CHR ''/'' \<or> \<not> path_set c"
  by (induction segs) (auto simp: path_text_def segment_ok_def)

lemma wf_URL_D:
  assumes "wf_URL u"
  shows "scheme u = ''http'' \<or> scheme u = ''https''"
    and "host u \<noteq> []"
    and "\<forall>c \<in> set (host u). \<not> forbidden_domain_code_point c"
    and "toLowerCase (host u) = host u"
    and "port u = Some n \<Longrightarrow> n \<le> 65535 \<and> default_port (scheme u) \<noteq> Some n"
    and "path u \<noteq> []"
    and "\<forall>s \<in> set (path u). segment_ok s"
    and "query u = Some q \<Longrightarrow> \<forall>c \<in> set q. \<not> special_query_set c"
    and "fragment u = Some f \<Longrightarrow> \<forall>c \<in> set f. \<not> fragment_set c"
  using assms unfolding wf_URL_def by simp_all

lemma wf_above_space:
  assumes "wf_URL u"
  shows "\<forall>c \<in> set (URL_toString u). \<not> is_c0_or_space c"
proof -
  have mark: "\<not> is_c0_or_space CHR ''/''" "\<not> is_c0_or_space CHR '':''" "\<not> is_c0_or_space CHR ''?''"
    "\<not> is_c0_or_space CHR ''#''"
    by (simp_all add: char_defs)
  have "\<forall>c \<in> set ''http://''. \<not> is_c0_or_space c" "\<forall>c \<in> set ''https://''. \<not> is_c0_or_space c"
    by (simp_all add: char_defs)
  with wf_URL_D(1) [OF assms] have sch: "\<forall>c \<in> set (scheme u @ ''://''). \<not> is_c0_or_space c"
    by (elim disjE) simp_all
  have h: "\<forall>c \<in> set (host u). \<not> is_c0_or_space c"
    using wf_URL_D(3) [OF assms] above_space(1) by blast
  have p: "\<forall>c \<in> set (port_text (port u)). \<not> is_c0_or_space c"
  proof
    fix c assume "c \<in> set (port_text (port u))"
    then have "c = CHR '':'' \<or> is_digit c" by (rule port_text_chars)
    then show "\<not> is_c0_or_space c"
      using above_space(5) mark by blast
  qed
  have pa: "\<forall>c \<in> set (path_text (path u)). \<not> is_c0_or_space c"
  proof
    fix c assume "c \<in> set (path_text (path u))"
    with wf_URL_D(7) [OF assms] have "c = CHR ''/'' \<or> \<not> path_set c"
      by (intro path_text_chars)
    then show "\<not> is_c0_or_space c"
      using above_space(2) mark by blast
  qed
  have q: "\<forall>c \<in> set (query_text (query u)). \<not> is_c0_or_space c"
  proof (cases "query u")
    case None
    then show ?thesis by (simp add: query_text_def)
  next
    case (Some t)
    from wf_URL_D(8) [OF assms Some] Some show ?thesis
      using above_space(3) mark by (simp add: query_text_def)
  qed
  have f: "\<forall>c \<in> set (fragment_text (fragment u)). \<not> is_c0_or_space c"
  proof (cases "fragment u")
    case None
    then show ?thesis by (simp add: fragment_text_def)
  next
    case (Some t)
    from wf_URL_D(9) [OF assms Some] Some show ?thesis
      using above_space(4) mark by (simp add: fragment_text_def)
  qed
  show ?thesis
    unfolding URL_toString_parts set_append ball_Un
    using sch [unfolded set_append ball_Un] h p pa q f by blast
qed

lemma scheme_state_serialized:
  "sch = ''http'' \<or> sch = ''https'' \<Longrightarrow>
     scheme_state (sch @ ''://'' @ rest) = Some (sch, CHR ''/'' # CHR ''/'' # rest)"
  by (auto simp: scheme_state_def char_defs toLowerCase_def lower_char_def)

lemma port_state_serialized:
  assumes "n \<le> 65535" and "default_port sch \<noteq> Some n"
  shows "port_state sch (show_nat n) = Some (Some n)"
  using assms show_nat_digits [of n] by (simp add: port_state_def)

lemma allowed_in_host:
  assumes "\<not> forbidden_domain_code_point c"
  shows "\<not> is_slash c" "\<not> authority_end c" "c \<noteq> CHR '':''"
  using assms by (auto simp: char_defs)

lemma port_char_in_authority: "c = CHR '':'' \<or> is_digit c \<Longrightarrow> \<not> authority_end c"
  by (auto simp: char_defs)

lemma path_char_no_mark: "c = CHR ''/'' \<or> \<not> path_set c \<Longrightarrow> c \<noteq> CHR ''?'' \<and> c \<noteq> CHR ''#''"
  by (auto simp: char_defs)

lemma query_char_no_hash: "\<not> special_query_set c \<Longrightarrow> c \<noteq> CHR ''#''"
  by (auto simp: char_defs)

lemma authority_state_serialized:
  assumes "wf_URL u"
  shows "authority_state (scheme u) (host u @ port_text (port u)) = Some (host u, port u)"
proof -
  have nc: "\<forall>c \<in> set (host u). c \<noteq> CHR '':''"
    using wf_URL_D(3) [OF assms] allowed_in_host(3) by blast
  have stop: "port_text (port u) = [] \<or> \<not> (hd (port_text (port u)) \<noteq> CHR '':'')"
    by (simp add: port_text_def split: option.splits)
  have t: "takeWhile (\<lambda>c. c \<noteq> CHR '':'') (host u @ port_text (port u)) = host u"
    using nc stop by (rule takeWhile_stop)
  have d: "dropWhile (\<lambda>c. c \<noteq> CHR '':'') (host u @ port_text (port u)) = port_text (port u)"
    using nc stop by (rule dropWhile_stop)
  have h: "host_parser (host u) = Some (host u)"
    using wf_URL_D(2,3,4) [OF assms] by (simp add: host_parser_def)
  have p: "port_state (scheme u) (drop 1 (port_text (port u))) = Some (port u)"
  proof (cases "port u")
    case None
    then show ?thesis by (simp add: port_text_def port_state_def)
  next
    case (Some n)
    with wf_URL_D(5) [OF assms Some] show ?thesis
      by (simp add: port_text_def port_state_serialized)
  qed
  show ?thesis
    unfolding authority_state_def Let_def t d h p by simp
qed

lemma special_URL_serialized:
  assumes "wf_URL u"
  shows "special_URL (scheme u)
           (CHR ''/'' # CHR ''/'' # host u @ port_text (port u) @ path_text (path u)
              @ query_text (query u) @ fragment_text (fragment u))
         = Some (u\<lparr>searchParams := []\<rparr>)"
proof -
  define H where "H = host u"
  define A where "A = host u @ port_text (port u)"
  define Pa where "Pa = path_text (path u)"
  define Q where "Q = query_text (query u)"
  define F where "F = fragment_text (fragment u)"
  have Hne: "H \<noteq> []"
    using wf_URL_D(2) [OF assms] by (simp add: H_def)
  then have "hd H \<in> set (host u)"
    by (simp add: H_def)
  with wf_URL_D(3) [OF assms] have Hslash: "\<not> is_slash (hd H)"
    using allowed_in_host(1) by blast
  have A: "A = H @ port_text (port u)"
    by (simp add: A_def H_def)
  have r1: "dropWhile is_slash (CHR ''/'' # CHR ''/'' # A @ Pa @ Q @ F) = A @ Pa @ Q @ F"
    using Hne Hslash unfolding A by (cases H) (simp_all add: is_slash_def)
  have Achars: "\<forall>c \<in> set A. \<not> authority_end c"
  proof
    fix c assume "c \<in> set A"
    then have "c \<in> set (host u) \<or> c = CHR '':'' \<or> is_digit c"
      using port_text_chars by (auto simp: A_def)
    then show "\<not> authority_end c"
      using wf_URL_D(3) [OF assms] allowed_in_host(2) port_char_in_authority by blast
  qed
  from wf_URL_D(6) [OF assms] obtain seg segs where "path u = seg # segs"
    by (cases "path u") auto
  then have Pa: "Pa = CHR ''/'' # seg @ path_text segs"
    by (simp add: Pa_def path_text_def)
  have Pa_hd: "Pa @ Q @ F \<noteq> []" "authority_end (hd (Pa @ Q @ F))"
    by (simp_all add: Pa authority_end_def is_slash_def)
  have auth: "takeWhile (\<lambda>c. \<not> authority_end c) (A @ Pa @ Q @ F) = A"
    using Achars Pa_hd by (intro takeWhile_stop) simp_all
  have r2: "dropWhile (\<lambda>c. \<not> authority_end c) (A @ Pa @ Q @ F) = Pa @ Q @ F"
    using Achars Pa_hd by (intro dropWhile_stop) simp_all
  have Pachars: "\<forall>c \<in> set Pa. c \<noteq> CHR ''?'' \<and> c \<noteq> CHR ''#''"
  proof
    fix c assume "c \<in> set Pa"
    with wf_URL_D(7) [OF assms] have "c = CHR ''/'' \<or> \<not> path_set c"
      unfolding Pa_def by (intro path_text_chars)
    then show "c \<noteq> CHR ''?'' \<and> c \<noteq> CHR ''#''"
      by (rule path_char_no_mark)
  qed
  have QF_hd: "Q @ F = [] \<or> \<not> (hd (Q @ F) \<noteq> CHR ''?'' \<and> hd (Q @ F) \<noteq> CHR ''#'')"
    by (simp add: Q_def F_def query_text_def fragment_text_def split: option.splits)
  have pth: "takeWhile (\<lambda>c. c \<noteq> CHR ''?'' \<and> c \<noteq> CHR ''#'') (Pa @ Q @ F) = Pa"
    using Pachars QF_hd by (rule takeWhile_stop)
  have r3: "dropWhile (\<lambda>c. c \<noteq> CHR ''?'' \<and> c \<noteq> CHR ''#'') (Pa @ Q @ F) = Q @ F"
    using Pachars QF_hd by (rule dropWhile_stop)
  have Qchars: "\<forall>c \<in> set Q. c \<noteq> CHR ''#''"
  proof (cases "query u")
    case None
    then show ?thesis by (simp add: Q_def query_text_def)
  next
    case (Some t)
    from wf_URL_D(8) [OF assms Some] have "\<forall>c \<in> set t. c \<noteq> CHR ''#''"
      using query_char_no_hash by blast
    with Some show ?thesis by (simp add: Q_def query_text_def)
  qed
  have F_hd: "F = [] \<or> \<not> (hd F \<noteq> CHR ''#'')"
    by (simp add: F_def fragment_text_def split: option.splits)
  have qry: "(case Q @ F of [] \<Rightarrow> None
              | c # cs \<Rightarrow> if c = CHR ''?'' then Some (takeWhile (\<lambda>c. c \<noteq> CHR ''#'') cs) else None)
             = query u"
  proof (cases "query u")
    case None
    then show ?thesis
      by (simp add: Q_def F_def query_text_def fragment_text_def split: option.splits)
  next
    case (Some t)
    from wf_URL_D(8) [OF assms Some] have "\<forall>c \<in> set t. c \<noteq> CHR ''#''"
      using query_char_no_hash by blast
    then have "takeWhile (\<lambda>c. c \<noteq> CHR ''#'') (t @ F) = t"
      using F_hd by (rule takeWhile_stop)
    with Some show ?thesis
      by (simp add: Q_def query_text_def)
  qed
  have "dropWhile (\<lambda>c. c \<noteq> CHR ''#'') (Q @ F) = F"
    using Qchars F_hd by (rule dropWhile_stop)
  then have frg: "(case dropWhile (\<lambda>c. c \<noteq> CHR ''#'') (Q @ F) of [] \<Rightarrow> None | c # cs \<Rightarrow> Some cs)
             = fragment u"
    by (simp add: F_def fragment_text_def split: option.splits)
  have path: "path_start Pa = path u"
    unfolding Pa_def path_text_def
    using wf_URL_D(6,7) [OF assms] by (rule path_start_serialized)
  have q: "map_option (percent_encode special_query_set) (query u) = query u"
    using wf_URL_D(8) [OF assms] by (cases "query u") (simp_all add: percent_encode_fixed)
  have f: "map_option (percent_encode fragment_set) (fragment u) = fragment u"
    using wf_URL_D(9) [OF assms] by (cases "fragment u") (simp_all add: percent_encode_fixed)
  have "special_URL (scheme u) (CHR ''/'' # CHR ''/'' # A @ Pa @ Q @ F) = Some (u\<lparr>searchParams := []\<rparr>)"
    unfolding special_URL_def Let_def r1 auth r2 pth r3 qry frg path q f
      authority_state_serialized [OF assms, folded A_def]
    by simp
  then show ?thesis
    by (simp add: A_def Pa_def Q_def F_def)
qed

lemma basic_URL_parser_serialized:
  assumes "wf_URL u"
  shows "basic_URL_parser (URL_toString u) = Some (u\<lparr>searchParams := []\<rparr>)"
proof -
  have pre: "preprocess (URL_toString u) = URL_toString u"
    using wf_above_space [OF assms] by (rule preprocess_fixed)
  have sch: "scheme_state (URL_toString u)
               = Some (scheme u, CHR ''/'' # CHR ''/'' # host u @ port_text (port u) @ path_text (path u)
                         @ query_text (query u) @ fragment_text (fragment u))"
    unfolding URL_toString_parts using wf_URL_D(1) [OF assms] by (rule scheme_state_serialized)
  show ?thesis
    unfolding basic_URL_parser_def pre sch
    using wf_URL_D(1) [OF assms] special_URL_serialized [OF assms] by auto
qed

lemma basic_URL_parser_wf:
  assumes "basic_URL_parser s = Some u" and "scheme u = ''http'' \<or> scheme u = ''https''"
  shows "wf_URL u" and "searchParams u = []"
proof -
  from assms obtain sch remaining where sp: "special_URL sch remaining = Some u"
    and sch: "sch = ''http'' \<or> sch = ''https''"
    by (auto simp: basic_URL_parser_def split: option.splits if_splits)
  from special_URL_wf [OF sp sch] show "wf_URL u" and "searchParams u = []" .
qed

section \<open>Normalizing twice\<close>

lemma wf_URL_searchParams [simp]: "wf_URL (u\<lparr>searchParams := l\<rparr>) = wf_URL u"
  by (simp add: wf_URL_def cong: option.case_cong)

lemma URL_new_wf:
  assumes "URL_new s = Inr u" and "scheme u = ''http'' \<or> scheme u = ''https''"
  shows "wf_URL u"
proof -
  from assms(1) obtain v where v: "basic_URL_parser s = Some v"
    and u: "u = v\<lparr>searchParams := urlencoded_parse (case query v of None \<Rightarrow> [] | Some q \<Rightarrow> q)\<rparr>"
    by (auto simp: URL_new_def split: option.splits)
  from assms(2) have "scheme v = ''http'' \<or> scheme v = ''https''"
    by (simp add: u)
  from basic_URL_parser_wf(1) [OF v this] show ?thesis
    by (simp add: u)
qed

lemma URL_new_serialized:
  assumes "wf_URL u"
    and "searchParams u = urlencoded_parse (case query u of None \<Rightarrow> [] | Some q \<Rightarrow> q)"
  shows "URL_new (URL_toString u) = Inr u"
  unfolding URL_new_def basic_URL_parser_serialized [OF assms(1)]
  using assms(2) by simp

lemma update_steps_wf:
  assumes "wf_URL u"
  shows "wf_URL (update_steps l u)"
    and "searchParams (update_steps l u)
           = urlencoded_parse (case query (update_steps l u) of None \<Rightarrow> [] | Some q \<Rightarrow> q)"
proof -
  have "\<forall>c \<in> set (urlencoded_serialize l). \<not> special_query_set c"
    using urlencoded_serialize_chars unreserved_safe by blast
  with assms show "wf_URL (update_steps l u)"
    by (simp add: wf_URL_def cong: option.case_cong)
  show "searchParams (update_steps l u)
           = urlencoded_parse (case query (update_steps l u) of None \<Rightarrow> [] | Some q \<Rightarrow> q)"
    by (simp add: urlencoded_parse_serialize) (simp add: urlencoded_parse_def)
qed

lemma normalized_twice: "normalized (normalized u ps) ps = normalized u ps"
proof -
  let ?keep = "\<lambda>p. \<not> ignored ps (fst p)"
  let ?l = "sort_key fst (filter ?keep (searchParams u))"
  have "filter ?keep ?l = ?l"
    by (rule filter_True) simp
  moreover have "sort_key fst ?l = ?l"
    by (rule sort_key_id_if_sorted) simp
  ultimately show ?thesis
    by (simp add: normalized_eq)
qed

text \<open>
  In the model of the URL class, normalizing twice is normalizing once, for every string:
  a string that is not an http(s) URL is returned as it is; for an http(s) URL the
  serialized object parses back to the same object, in which nothing is left to remove or
  to reorder.
\<close>

lemma model_normalizeUrl_idempotent:
  "normalizeUrl (normalizeUrl url ps) ps = normalizeUrl url ps"
proof (cases "URL_new url")
  case (Inl e)
  then show ?thesis
    by (simp add: normalizeUrl_def normalizeUrl_body_def)
next
  case (Inr u)
  show ?thesis
  proof (cases "scheme u = ''http'' \<or> scheme u = ''https''")
    case False
    with Inr have "normalizeUrl url ps = url"
      by (simp add: normalizeUrl_def normalizeUrl_body_def valid_protocol_iff)
    then show ?thesis by simp
  next
    case True
    have n: "normalizeUrl url ps = URL_toString (normalized u ps)"
      by (rule normalizeUrl_http [OF Inr True])
    have wf: "wf_URL u"
      by (rule URL_new_wf [OF Inr True])
    have parsed: "URL_new (URL_toString (normalized u ps)) = Inr (normalized u ps)"
      unfolding normalized_eq
      by (rule URL_new_serialized [OF update_steps_wf [OF wf]])
    have sch: "scheme (normalized u ps) = ''http'' \<or> scheme (normalized u ps) = ''https''"
      using True by (simp add: normalized_eq)
    have "normalizeUrl (URL_toString (normalized u ps)) ps
            = URL_toString (normalized (normalized u ps) ps)"
      by (rule normalizeUrl_http [OF parsed sch])
    then show ?thesis
      by (simp add: n normalized_twice)
  qed
qed

section \<open>Two general facts: the fragment, and a search that raises\<close>

lemma normalized_fragment: "fragment (normalized u ps) = fragment u"
  by (simp add: normalized_eq)

lemma empty_fragment_survives:
  assumes "URL_new url = Inr u" and "scheme u = ''http'' \<or> scheme u = ''https''"
    and "fragment u = Some []"
  shows "\<exists>s. normalizeUrl url ps = s @ ''#''"
  unfolding normalizeUrl_http [OF assms(1,2)] URL_toString_def normalized_fragment assms(3)
  by (metis append.assoc option.simps(5))

lemma raised_search_rejects:
  assumes "enabled (getConfig w)"
    and "u \<in> set (case urls msg of None \<Rightarrow> [] | Some l \<Rightarrow> l)"
    and "isValidHttpUrl u" and "extractDomain u = Some d"
    and "history_search w d = Raises e"
  shows "visitedUrls (fst (handleCheckVisited msg w)) = []"
    and "error (fst (handleCheckVisited msg w)) \<noteq> None"
proof -
  let ?us = "case urls msg of None \<Rightarrow> [] | Some l \<Rightarrow> l"
  let ?ps = "ignoreParams (getConfig w)"
  from assms(2-4) obtain g where "(d, g) \<in> set (domainGroups ?us ?ps)"
    using candidate_in_groups [of d ?us ?ps u] by blast
  then have "d \<in> fst ` set (domainGroups ?us ?ps)"
    by force
  with assms(5) have "\<not> (\<exists>vs. fst (checkVisitedUrls ?us ?ps w) = Inr vs)"
    unfolding checkVisitedUrls_resolves by blast
  then obtain e' w1 where r: "checkVisitedUrls ?us ?ps w = (Inl e', w1)"
    by (cases "checkVisitedUrls ?us ?ps w"; cases "fst (checkVisitedUrls ?us ?ps w)") auto
  show "visitedUrls (fst (handleCheckVisited msg w)) = []"
    and "error (fst (handleCheckVisited msg w)) \<noteq> None"
    unfolding handleCheckVisited_enabled [OF assms(1)] r by simp_all
qed

section \<open>Normalizing twice, over any URL class\<close>











end
